theory Spec2Isabelle
  imports Complex_Main
begin

section \<open>Data model of calcalt.c\<close>

text \<open>
  Heights and lengths are floating-point numbers in the C source. They are modelled as
  real numbers: the theory is about the displacement algorithm over exact arithmetic,
  not about rounding. The C type \<open>int\<close> is modelled by the mathematical integers; a
  shift by a negative count, which is undefined at every width of \<open>int\<close>, is an error
  of the model.
\<close>

type_synonym Height = real
type_synonym Length = real

text \<open>
  \<open>struct strip\<close>: a level and an array of heights. The array is a separate
  allocation in C that only its strip ever points to, so the two are one object here.
\<close>

record Strip =
  level :: int
  d :: "Height list"

text \<open>
  A \<open>Strip *\<close> is \<open>None\<close> (the NULL pointer) or the address of a strip in the store.
\<close>

type_synonym ptr = "nat option"

text \<open>
  \<open>struct fold\<close>. The four strip slots are pointers into the store, because the code
  hands the same strip to its caller and keeps it in a slot. A fold is only ever pointed to
  by the \<open>next\<close> field of the fold one level finer, so the chain of folds is a nested
  value and a call of \<open>next_strip\<close> returns the updated fold.
\<close>

datatype Fold = Fold
  (flevel: int)
  (state: int)
  (smooth: int)
  (mean: Height)
  (scale: Length)
  (midscale: Length)
  (new: ptr)
  (working: ptr)
  (regen: ptr)
  (old: ptr)
  (next_fold: "Fold option")

text \<open>
  Modelled from the spec: the header crinkle.h, which defines the macros \<open>START\<close> and
  \<open>STORE\<close>, is not among the sources. \<open>make_fold\<close> stores the literal 0 in the state
  field and the spec says that the first call of \<open>next_strip\<close> on a new fold executes the
  \<open>START\<close> branch, so \<open>START\<close> is 0; \<open>STORE\<close> is a second, different value.
\<close>

definition START :: int where
  "START = 0"

definition STORE :: int where
  "STORE = 1"

text \<open>
  The ways a run can stop without returning: the two \<open>exit\<close> calls for inconsistent strip
  sizes and for an invalid state, and the undefined behaviours a call can run into.
  \<open>malloc\<close> is modelled as never failing, so \<open>exit(1)\<close> has no counterpart.
\<close>

datatype error =
    Inconsistent_sizes
  | Invalid_state
  | Null_pointer
  | Dangling_pointer
  | Out_of_bounds
  | Negative_shift

text \<open>
  The state outside the folds: the store of live strips, the next address \<open>malloc\<close>
  hands out, the contents of freshly allocated memory (\<open>malloc\<close> does not initialise, so
  cell \<open>i\<close> of a new strip at address \<open>a\<close> holds \<open>junk a i\<close>, about which nothing is
  assumed), and the number of samples drawn from the Gaussian source so far. The field
  \<open>calls\<close> is instrumentation: \<open>next_strip\<close> records the level of the fold of every
  invocation in it, most recent first, and no function reads it.
\<close>

record world =
  heap :: "nat \<Rightarrow> Strip option"
  brk :: nat
  junk :: "nat \<Rightarrow> nat \<Rightarrow> Height"
  drawn :: nat
  calls :: "int list"

text \<open>
  The Gaussian source \<open>gaussian()\<close> is external to the file. It is a parameter \<open>G\<close> of
  the model, the sequence of samples it returns; a call takes the next one.
\<close>

definition gaussian :: "(nat \<Rightarrow> Height) \<Rightarrow> world \<Rightarrow> Height \<times> world" where
  "gaussian G w = (G (drawn w), w\<lparr>drawn := Suc (drawn w)\<rparr>)"

text \<open>\<open>1 << n\<close>\<close>

definition shl1 :: "int \<Rightarrow> error + int" where
  "shl1 n = (if n < 0 then Inl Negative_shift else Inr (2 ^ nat n))"

text \<open>\<open>s->level\<close>, and reading and writing \<open>s->d[i]\<close>.\<close>

definition get_level :: "ptr \<Rightarrow> world \<Rightarrow> error + int" where
  "get_level p w =
     (case p of
        None \<Rightarrow> Inl Null_pointer
      | Some a \<Rightarrow>
          (case heap w a of
             None \<Rightarrow> Inl Dangling_pointer
           | Some s \<Rightarrow> Inr (level s)))"

definition rd :: "ptr \<Rightarrow> int \<Rightarrow> world \<Rightarrow> error + Height" where
  "rd p i w =
     (case p of
        None \<Rightarrow> Inl Null_pointer
      | Some a \<Rightarrow>
          (case heap w a of
             None \<Rightarrow> Inl Dangling_pointer
           | Some s \<Rightarrow>
               if 0 \<le> i \<and> i < int (length (d s)) then Inr (d s ! nat i)
               else Inl Out_of_bounds))"

definition wr :: "ptr \<Rightarrow> int \<Rightarrow> Height \<Rightarrow> world \<Rightarrow> error + world" where
  "wr p i v w =
     (case p of
        None \<Rightarrow> Inl Null_pointer
      | Some a \<Rightarrow>
          (case heap w a of
             None \<Rightarrow> Inl Dangling_pointer
           | Some s \<Rightarrow>
               if 0 \<le> i \<and> i < int (length (d s))
               then Inr (w\<lparr>heap := (heap w)(a \<mapsto> s\<lparr>d := (d s)[nat i := v]\<rparr>)\<rparr>)
               else Inl Out_of_bounds))"

section \<open>Strip utilities\<close>

definition make_strip :: "int \<Rightarrow> world \<Rightarrow> error + (ptr \<times> world)" where
  "make_strip lev w =
     (case shl1 lev of
        Inl e \<Rightarrow> Inl e
      | Inr n \<Rightarrow>
          let points = n + 1; a = brk w
          in Inr (Some a,
                  w\<lparr>heap := (heap w)(a \<mapsto> \<lparr>level = lev, d = map (junk w a) [0..<nat points]\<rparr>),
                    brk := Suc a\<rparr>))"

definition free_strip :: "ptr \<Rightarrow> world \<Rightarrow> error + world" where
  "free_strip p w =
     (case p of
        None \<Rightarrow> Inl Null_pointer
      | Some a \<Rightarrow>
          (case heap w a of
             None \<Rightarrow> Inl Dangling_pointer
           | Some s \<Rightarrow> Inr (w\<lparr>heap := (heap w)(a := None)\<rparr>)))"

text \<open>
  The loop of \<open>double_strip\<close>: \<open>n\<close> iterations are left, \<open>a\<close> and \<open>b\<close> are the offsets
  of the two moving pointers into \<open>s->d\<close> and \<open>p->d\<close>.
\<close>

fun double_loop :: "ptr \<Rightarrow> ptr \<Rightarrow> nat \<Rightarrow> int \<Rightarrow> int \<Rightarrow> world \<Rightarrow> error + (int \<times> int \<times> world)" where
  "double_loop s p 0 a b w = Inr (a, b, w)"
| "double_loop s p (Suc n) a b w =
     (case rd s a w of
        Inl e \<Rightarrow> Inl e
      | Inr x \<Rightarrow>
          (case wr p b x w of
             Inl e \<Rightarrow> Inl e
           | Inr w1 \<Rightarrow>
               (case wr p (b + 1) 0 w1 of
                  Inl e \<Rightarrow> Inl e
                | Inr w2 \<Rightarrow> double_loop s p n (a + 1) (b + 2) w2)))"

definition double_strip :: "ptr \<Rightarrow> world \<Rightarrow> error + (ptr \<times> world)" where
  "double_strip s w =
     (case get_level s w of
        Inl e \<Rightarrow> Inl e
      | Inr lev \<Rightarrow>
          (case make_strip (lev + 1) w of
             Inl e \<Rightarrow> Inl e
           | Inr (p, w1) \<Rightarrow>
               (case shl1 lev of
                  Inl e \<Rightarrow> Inl e
                | Inr n \<Rightarrow>
                    (case double_loop s p (nat n) 0 0 w1 of
                       Inl e \<Rightarrow> Inl e
                     | Inr (a, b, w2) \<Rightarrow>
                         (case rd s a w2 of
                            Inl e \<Rightarrow> Inl e
                          | Inr x \<Rightarrow>
                              (case wr p b x w2 of
                                 Inl e \<Rightarrow> Inl e
                               | Inr w3 \<Rightarrow> Inr (p, w3)))))))"

fun set_loop :: "ptr \<Rightarrow> Height \<Rightarrow> nat \<Rightarrow> int \<Rightarrow> world \<Rightarrow> error + world" where
  "set_loop s v 0 h w = Inr w"
| "set_loop s v (Suc n) h w =
     (case wr s h v w of
        Inl e \<Rightarrow> Inl e
      | Inr w1 \<Rightarrow> set_loop s v n (h + 1) w1)"

definition set_strip :: "int \<Rightarrow> Height \<Rightarrow> world \<Rightarrow> error + (ptr \<times> world)" where
  "set_strip lev v w =
     (case make_strip lev w of
        Inl e \<Rightarrow> Inl e
      | Inr (s, w1) \<Rightarrow>
          (case shl1 lev of
             Inl e \<Rightarrow> Inl e
           | Inr n \<Rightarrow>
               (case set_loop s v (nat (n + 1)) 0 w1 of
                  Inl e \<Rightarrow> Inl e
                | Inr w2 \<Rightarrow> Inr (s, w2))))"

section \<open>Update kernels\<close>

text \<open>
  In each loop \<open>n\<close> counts the iterations that are left and the integer arguments are the
  offsets of the moving pointers of the C loop into the arrays of their strips. The level
  checks of \<open>mid_update\<close> and \<open>recalc\<close> are written with \<open>||\<close>, which does not read
  \<open>right->level\<close> when its first operand already holds.
\<close>

fun side_loop :: "(nat \<Rightarrow> Height) \<Rightarrow> ptr \<Rightarrow> Length \<Rightarrow> nat \<Rightarrow> int \<Rightarrow> world \<Rightarrow> error + world" where
  "side_loop G s sc 0 p w = Inr w"
| "side_loop G s sc (Suc n) p w =
     (case gaussian G w of
        (g, w1) \<Rightarrow>
          (case rd s p w1 of
             Inl e \<Rightarrow> Inl e
           | Inr x \<Rightarrow>
               (case rd s (p + 2) w1 of
                  Inl e \<Rightarrow> Inl e
                | Inr y \<Rightarrow>
                    (case wr s (p + 1) (sc * g + (x + y) / 2) w1 of
                       Inl e \<Rightarrow> Inl e
                     | Inr w2 \<Rightarrow> side_loop G s sc n (p + 2) w2))))"

definition side_update :: "(nat \<Rightarrow> Height) \<Rightarrow> ptr \<Rightarrow> Length \<Rightarrow> world \<Rightarrow> error + world" where
  "side_update G strip sc w =
     (case get_level strip w of
        Inl e \<Rightarrow> Inl e
      | Inr lev \<Rightarrow>
          (case shl1 (lev - 1) of
             Inl e \<Rightarrow> Inl e
           | Inr count \<Rightarrow> side_loop G strip sc (nat count) 0 w))"

fun mid_loop :: "(nat \<Rightarrow> Height) \<Rightarrow> ptr \<Rightarrow> ptr \<Rightarrow> ptr \<Rightarrow> Length \<Rightarrow> Length \<Rightarrow> nat \<Rightarrow>
    int \<Rightarrow> int \<Rightarrow> int \<Rightarrow> world \<Rightarrow> error + (int \<times> int \<times> int \<times> world)" where
  "mid_loop G left nw right sc msc 0 l n r w = Inr (l, n, r, w)"
| "mid_loop G left nw right sc msc (Suc k) l n r w =
     (case gaussian G w of
        (g1, w1) \<Rightarrow>
          (case rd left l w1 of
             Inl e \<Rightarrow> Inl e
           | Inr xl \<Rightarrow>
               (case rd right r w1 of
                  Inl e \<Rightarrow> Inl e
                | Inr xr \<Rightarrow>
                    (case wr nw n (sc * g1 + (xl + xr) / 2) w1 of
                       Inl e \<Rightarrow> Inl e
                     | Inr w2 \<Rightarrow>
                         (case gaussian G w2 of
                            (g2, w3) \<Rightarrow>
                              (case rd left l w3 of
                                 Inl e \<Rightarrow> Inl e
                               | Inr yl \<Rightarrow>
                                   (case rd left (l + 1) w3 of
                                      Inl e \<Rightarrow> Inl e
                                    | Inr yl1 \<Rightarrow>
                                        (case rd right r w3 of
                                           Inl e \<Rightarrow> Inl e
                                         | Inr yr \<Rightarrow>
                                             (case rd right (r + 2) w3 of
                                                Inl e \<Rightarrow> Inl e
                                              | Inr yr2 \<Rightarrow>
                                                  (case wr nw (n + 1)
                                                          (msc * g2 + (yl + yl1 + yr + yr2) / 4) w3 of
                                                     Inl e \<Rightarrow> Inl e
                                                   | Inr w4 \<Rightarrow>
                                                       mid_loop G left nw right sc msc k
                                                         (l + 1) (n + 2) (r + 2) w4))))))))))"

definition mid_update ::
  "(nat \<Rightarrow> Height) \<Rightarrow> ptr \<Rightarrow> ptr \<Rightarrow> ptr \<Rightarrow> Length \<Rightarrow> Length \<Rightarrow> world \<Rightarrow> error + world" where
  "mid_update G left nw right sc msc w =
     (case get_level left w of
        Inl e \<Rightarrow> Inl e
      | Inr lev_l \<Rightarrow>
          (case get_level nw w of
             Inl e \<Rightarrow> Inl e
           | Inr lev_n \<Rightarrow>
               if lev_l \<noteq> lev_n - 1 then Inl Inconsistent_sizes
               else
               (case get_level right w of
                  Inl e \<Rightarrow> Inl e
                | Inr lev_r \<Rightarrow>
                    if lev_n \<noteq> lev_r then Inl Inconsistent_sizes
                    else
                      (case shl1 lev_l of
                         Inl e \<Rightarrow> Inl e
                       | Inr count \<Rightarrow>
                           (case mid_loop G left nw right sc msc (nat count) 0 0 0 w of
                              Inl e \<Rightarrow> Inl e
                            | Inr (l, n, r, w1) \<Rightarrow>
                                (case gaussian G w1 of
                                   (g, w2) \<Rightarrow>
                                     (case rd left l w2 of
                                        Inl e \<Rightarrow> Inl e
                                      | Inr xl \<Rightarrow>
                                          (case rd right r w2 of
                                             Inl e \<Rightarrow> Inl e
                                           | Inr xr \<Rightarrow>
                                               wr nw n (sc * g + (xl + xr) / 2) w2))))))))"

fun recalc_loop :: "(nat \<Rightarrow> Height) \<Rightarrow> ptr \<Rightarrow> ptr \<Rightarrow> ptr \<Rightarrow> Length \<Rightarrow> nat \<Rightarrow>
    int \<Rightarrow> int \<Rightarrow> int \<Rightarrow> world \<Rightarrow> error + (int \<times> int \<times> int \<times> world)" where
  "recalc_loop G left rgn right sc 0 l g r w = Inr (l, g, r, w)"
| "recalc_loop G left rgn right sc (Suc k) l g r w =
     (case gaussian G w of
        (z, w1) \<Rightarrow>
          (case rd left l w1 of
             Inl e \<Rightarrow> Inl e
           | Inr xl \<Rightarrow>
               (case rd rgn (g + 1) w1 of
                  Inl e \<Rightarrow> Inl e
                | Inr xa \<Rightarrow>
                    (case rd rgn (g - 1) w1 of
                       Inl e \<Rightarrow> Inl e
                     | Inr xb \<Rightarrow>
                         (case rd right r w1 of
                            Inl e \<Rightarrow> Inl e
                          | Inr xr \<Rightarrow>
                              (case wr rgn g (sc * z + (xl + xa + xb + xr) / 4) w1 of
                                 Inl e \<Rightarrow> Inl e
                               | Inr w2 \<Rightarrow>
                                   recalc_loop G left rgn right sc k (l + 2) (g + 2) (r + 2) w2))))))"

definition recalc ::
  "(nat \<Rightarrow> Height) \<Rightarrow> ptr \<Rightarrow> ptr \<Rightarrow> ptr \<Rightarrow> Length \<Rightarrow> world \<Rightarrow> error + world" where
  "recalc G left rgn right sc w =
     (case get_level left w of
        Inl e \<Rightarrow> Inl e
      | Inr lev_l \<Rightarrow>
          (case get_level rgn w of
             Inl e \<Rightarrow> Inl e
           | Inr lev_g \<Rightarrow>
               if lev_l \<noteq> lev_g then Inl Inconsistent_sizes
               else
               (case get_level right w of
                  Inl e \<Rightarrow> Inl e
                | Inr lev_r \<Rightarrow>
                    if lev_g \<noteq> lev_r then Inl Inconsistent_sizes
                    else
                      (case shl1 (lev_g - 1) of
                         Inl e \<Rightarrow> Inl e
                       | Inr c \<Rightarrow>
                           (case gaussian G w of
                              (z0, w1) \<Rightarrow>
                                (case rd left 0 w1 of
                                   Inl e \<Rightarrow> Inl e
                                 | Inr xl \<Rightarrow>
                                     (case rd rgn 1 w1 of
                                        Inl e \<Rightarrow> Inl e
                                      | Inr xa \<Rightarrow>
                                          (case rd right 0 w1 of
                                             Inl e \<Rightarrow> Inl e
                                           | Inr xr \<Rightarrow>
                                               (case wr rgn 0 (sc * z0 + (xl + xa + xr) / 3) w1 of
                                                  Inl e \<Rightarrow> Inl e
                                                | Inr w2 \<Rightarrow>
  (case recalc_loop G left rgn right sc (nat (c - 1)) 2 2 2 w2 of
     Inl e \<Rightarrow> Inl e
   | Inr (l, g, r, w3) \<Rightarrow>
       (case gaussian G w3 of
          (z1, w4) \<Rightarrow>
            (case rd left l w4 of
               Inl e \<Rightarrow> Inl e
             | Inr yl \<Rightarrow>
                 (case rd rgn (g - 1) w4 of
                    Inl e \<Rightarrow> Inl e
                  | Inr yb \<Rightarrow>
                      (case rd right r w4 of
                         Inl e \<Rightarrow> Inl e
                       | Inr yr \<Rightarrow>
                           wr rgn g (sc * z1 + (yl + yb + yr) / 3) w4))))))))))))))"

section \<open>The generation engine\<close>

fun next_strip :: "(nat \<Rightarrow> Height) \<Rightarrow> Fold \<Rightarrow> world \<Rightarrow> error + (ptr \<times> Fold \<times> world)" where
  "next_strip G (Fold lev st sm mn sc msc nw wk rg ol nx) w0 =
     (let w = w0\<lparr>calls := lev # calls w0\<rparr> in
      if lev = 0 then
        (case make_strip 0 w of
           Inl e \<Rightarrow> Inl e
         | Inr (result, w1) \<Rightarrow>
             (case gaussian G w1 of
                (g0, w2) \<Rightarrow>
                  (case wr result 0 (mn + sc * g0) w2 of
                     Inl e \<Rightarrow> Inl e
                   | Inr w3 \<Rightarrow>
                       (case gaussian G w3 of
                          (g1, w4) \<Rightarrow>
                            (case wr result 1 (mn + sc * g1) w4 of
                               Inl e \<Rightarrow> Inl e
                             | Inr w5 \<Rightarrow>
                                 Inr (result, Fold lev st sm mn sc msc nw wk rg ol nx, w5))))))
      else if st = START then
        (case nx of
           None \<Rightarrow> Inl Null_pointer
         | Some f \<Rightarrow>
             (case next_strip G f w of
                Inl e \<Rightarrow> Inl e
              | Inr (nw', f', w1) \<Rightarrow>
                  (case side_update G rg sc w1 of
                     Inl e \<Rightarrow> Inl e
                   | Inr w2 \<Rightarrow>
                       (case make_strip lev w2 of
                          Inl e \<Rightarrow> Inl e
                        | Inr (wk', w3) \<Rightarrow>
                            (case mid_update G nw' wk' rg sc msc w3 of
                               Inl e \<Rightarrow> Inl e
                             | Inr w4 \<Rightarrow>
                                 (case (if sm \<noteq> 0 then recalc G wk' rg ol sc w4 else Inr w4) of
                                    Inl e \<Rightarrow> Inl e
                                  | Inr w5 \<Rightarrow>
                                      Inr (ol,
                                           Fold lev STORE sm mn sc msc nw' wk' rg ol (Some f'),
                                           w5)))))))
      else if st = STORE then
        (case double_strip nw w of
           Inl e \<Rightarrow> Inl e
         | Inr (rg', w1) \<Rightarrow>
             (case free_strip nw w1 of
                Inl e \<Rightarrow> Inl e
              | Inr w2 \<Rightarrow>
                  Inr (rg, Fold lev START sm mn sc msc None None rg' wk nx, w2)))
      else Inl Invalid_state)"

section \<open>Fold construction\<close>

text \<open>
  \<open>pow\<close> and \<open>sqrt\<close> of the C library, on real numbers. \<open>powr\<close> agrees with \<open>pow\<close>
  for a positive base, which is what a length is.
\<close>

definition pow :: "real \<Rightarrow> real \<Rightarrow> real" where
  "pow x y = x powr y"

function make_fold ::
  "int \<Rightarrow> int \<Rightarrow> Length \<Rightarrow> Height \<Rightarrow> Height \<Rightarrow> real \<Rightarrow> world \<Rightarrow> error + (Fold \<times> world)" where
  "make_fold levels sm len start mn fdim w =
     (let root2 = sqrt 2;
          sc = pow len (2 * fdim);
          msc = pow (len * root2) (2 * fdim)
      in if levels \<noteq> 0 then
           (case set_strip levels start w of
              Inl e \<Rightarrow> Inl e
            | Inr (rg, w1) \<Rightarrow>
                (case set_strip levels start w1 of
                   Inl e \<Rightarrow> Inl e
                 | Inr (ol, w2) \<Rightarrow>
                     (case make_fold (levels - 1) sm (2 * len) start mn fdim w2 of
                        Inl e \<Rightarrow> Inl e
                      | Inr (nx, w3) \<Rightarrow>
                          Inr (Fold levels 0 sm mn sc msc None None rg ol (Some nx), w3))))
         else Inr (Fold levels 0 sm mn sc msc None None None None None, w))"
  by pat_completeness auto
termination
proof (relation "measure (\<lambda>(levels, sm, len, start, mn, fdim, w). nat levels)")
  show "wf (measure (\<lambda>(levels, sm, len, start, mn, fdim, w). nat levels))"
    by simp
next
  fix levels :: int and sm :: int and len start mn fdim :: real and w :: world
    and x xa xb x2 x1 x2a x2b y ya
  assume "levels \<noteq> 0" and "set_strip levels start w = Inr x2"
  then have "0 < levels"
    by (auto simp: set_strip_def make_strip_def shl1_def split: if_splits sum.splits)
  then show "((levels - 1, sm, 2 * len, start, mn, fdim, ya), levels, sm, len, start, mn, fdim, w)
      \<in> measure (\<lambda>(levels, sm, len, start, mn, fdim, w). nat levels)"
    by simp
qed

section \<open>A caller\<close>

text \<open>
  The file has no caller of its own. \<open>drive G n\<close> is the simplest one: it calls
  \<open>next_strip\<close> \<open>n\<close> times on the same fold and keeps the strips it is handed.
\<close>

fun drive :: "(nat \<Rightarrow> Height) \<Rightarrow> nat \<Rightarrow> Fold \<Rightarrow> world \<Rightarrow> error + (Fold \<times> world)" where
  "drive G 0 f w = Inr (f, w)"
| "drive G (Suc n) f w =
     (case next_strip G f w of
        Inl e \<Rightarrow> Inl e
      | Inr (p, f', w') \<Rightarrow> drive G n f' w')"

text \<open>
  The contents of the strip that the call after \<open>n\<close> earlier calls returns, read when it
  is returned; and the same for a chain that \<open>make_fold\<close> has just built.
\<close>

definition strip_data :: "world \<Rightarrow> ptr \<Rightarrow> Height list option" where
  "strip_data w p = (case p of None \<Rightarrow> None | Some a \<Rightarrow> map_option d (heap w a))"

definition returned :: "(nat \<Rightarrow> Height) \<Rightarrow> nat \<Rightarrow> Fold \<Rightarrow> world \<Rightarrow> error + Height list option" where
  "returned G n f w =
     (case drive G n f w of
        Inl e \<Rightarrow> Inl e
      | Inr (f1, w1) \<Rightarrow>
          (case next_strip G f1 w1 of
             Inl e \<Rightarrow> Inl e
           | Inr (p, f', w') \<Rightarrow> Inr (strip_data w' p)))"

definition generated ::
  "(nat \<Rightarrow> Height) \<Rightarrow> nat \<Rightarrow> int \<Rightarrow> int \<Rightarrow> Length \<Rightarrow> Height \<Rightarrow> Height \<Rightarrow> real \<Rightarrow> world \<Rightarrow>
    error + Height list option" where
  "generated G n levels sm len start mn fdim w =
     (case make_fold levels sm len start mn fdim w of
        Inl e \<Rightarrow> Inl e
      | Inr (f, w1) \<Rightarrow> returned G n f w1)"

text \<open>The Gaussian source replaced by the function that always returns 0.\<close>

definition zero_noise :: "nat \<Rightarrow> Height" where
  "zero_noise n = 0"

section \<open>Vocabulary of the proofs\<close>

subsection \<open>What the loops compute\<close>

text \<open>
  Each loop of the source, read as a function on the arrays alone: the same recursion with
  the store taken away. The lemmas below show that the loops over the store compute these
  lists when the strips involved are live, large enough and distinct.
\<close>

fun set_list :: "Height \<Rightarrow> nat \<Rightarrow> nat \<Rightarrow> Height list \<Rightarrow> Height list" where
  "set_list v 0 h ys = ys"
| "set_list v (Suc n) h ys = set_list v n (Suc h) (ys[h := v])"

fun double_list :: "nat \<Rightarrow> nat \<Rightarrow> nat \<Rightarrow> Height list \<Rightarrow> Height list \<Rightarrow> Height list" where
  "double_list 0 a b xs ys = ys"
| "double_list (Suc n) a b xs ys = double_list n (Suc a) (b + 2) xs (ys[b := xs ! a, Suc b := 0])"

fun side_list :: "(nat \<Rightarrow> Height) \<Rightarrow> Length \<Rightarrow> nat \<Rightarrow> nat \<Rightarrow> nat \<Rightarrow> Height list \<Rightarrow> Height list" where
  "side_list G sc 0 p k xs = xs"
| "side_list G sc (Suc n) p k xs =
     side_list G sc n (p + 2) (Suc k) (xs[Suc p := sc * G k + (xs ! p + xs ! (p + 2)) / 2])"

fun mid_list :: "(nat \<Rightarrow> Height) \<Rightarrow> Length \<Rightarrow> Length \<Rightarrow> nat \<Rightarrow> nat \<Rightarrow> nat \<Rightarrow> nat \<Rightarrow> nat \<Rightarrow>
    Height list \<Rightarrow> Height list \<Rightarrow> Height list \<Rightarrow> Height list" where
  "mid_list G sc msc 0 l n r k ls rs ns = ns"
| "mid_list G sc msc (Suc c) l n r k ls rs ns =
     mid_list G sc msc c (Suc l) (n + 2) (r + 2) (k + 2) ls rs
       (ns[n := sc * G k + (ls ! l + rs ! r) / 2,
           Suc n := msc * G (Suc k) + (ls ! l + ls ! Suc l + rs ! r + rs ! (r + 2)) / 4])"

fun recalc_list :: "(nat \<Rightarrow> Height) \<Rightarrow> Length \<Rightarrow> nat \<Rightarrow> nat \<Rightarrow> nat \<Rightarrow> nat \<Rightarrow> nat \<Rightarrow>
    Height list \<Rightarrow> Height list \<Rightarrow> Height list \<Rightarrow> Height list" where
  "recalc_list G sc 0 l g r k ls rs gs = gs"
| "recalc_list G sc (Suc c) l g r k ls rs gs =
     recalc_list G sc c (l + 2) (g + 2) (r + 2) (Suc k) ls rs
       (gs[g := sc * G k + (ls ! l + gs ! Suc g + gs ! (g - 1) + rs ! r) / 4])"

text \<open>
  The arrays that \<open>double_strip\<close>, \<open>side_update\<close> and \<open>mid_update\<close> leave behind, entry
  by entry; \<open>k\<close> is the number of samples drawn before the kernel starts.
\<close>

definition doubled :: "Height list \<Rightarrow> Height list" where
  "doubled xs = map (\<lambda>j. if even j then xs ! (j div 2) else 0) [0..<2 * (length xs - 1) + 1]"

definition side_data :: "(nat \<Rightarrow> Height) \<Rightarrow> Length \<Rightarrow> nat \<Rightarrow> Height list \<Rightarrow> Height list" where
  "side_data G sc k xs =
     map (\<lambda>j. if odd j then sc * G (k + j div 2) + (xs ! (j - 1) + xs ! (j + 1)) / 2 else xs ! j)
       [0..<length xs]"

definition mid_data ::
  "(nat \<Rightarrow> Height) \<Rightarrow> Length \<Rightarrow> Length \<Rightarrow> nat \<Rightarrow> Height list \<Rightarrow> Height list \<Rightarrow> Height list" where
  "mid_data G sc msc k ls rs =
     map (\<lambda>j. if even j then sc * G (k + j) + (ls ! (j div 2) + rs ! j) / 2
              else msc * G (k + j) +
                   (ls ! (j div 2) + ls ! Suc (j div 2) + rs ! (j - 1) + rs ! (j + 1)) / 4)
       [0..<length rs]"

subsection \<open>Well-formed stores and folds\<close>

text \<open>\<open>malloc\<close> has not handed out the addresses from \<open>brk\<close> on: nothing lives there.\<close>

definition wf_world :: "world \<Rightarrow> bool" where
  "wf_world w = (\<forall>a. brk w \<le> a \<longrightarrow> heap w a = None)"

text \<open>The size invariant of one strip, and of every live strip of a store.\<close>

definition strip_ok :: "Strip \<Rightarrow> bool" where
  "strip_ok s = (0 \<le> level s \<and> length (d s) = 2 ^ nat (level s) + 1)"

definition heap_ok :: "world \<Rightarrow> bool" where
  "heap_ok w = (\<forall>a s. heap w a = Some s \<longrightarrow> strip_ok s)"

text \<open>The pointer \<open>p\<close> leads to a live strip of level \<open>L\<close> and of \<open>2 ^ L + 1\<close> entries.\<close>

definition strip_at :: "world \<Rightarrow> ptr \<Rightarrow> int \<Rightarrow> bool" where
  "strip_at w p L =
     (case p of
        None \<Rightarrow> False
      | Some a \<Rightarrow>
          (case heap w a of
             None \<Rightarrow> False
           | Some s \<Rightarrow> a < brk w \<and> level s = L \<and> length (d s) = 2 ^ nat L + 1))"

text \<open>
  The strips a chain of folds will still read or write: in state \<open>START\<close> the slots
  \<open>regen\<close> and \<open>old\<close>, in state \<open>STORE\<close> the slots \<open>regen\<close>, \<open>working\<close> and \<open>new\<close>
  (the slot \<open>old\<close> then still holds the pointer that the last call returned, and is not
  read again before it is overwritten).
\<close>

fun owned :: "Fold \<Rightarrow> nat set" where
  "owned (Fold lev st sm mn sc msc nw wk rg ol nx) =
     (if lev = 0 then {}
      else (if st = START then set_option rg \<union> set_option ol
            else set_option rg \<union> set_option wk \<union> set_option nw) \<union>
           (case nx of None \<Rightarrow> {} | Some f \<Rightarrow> owned f))"

text \<open>
  The invariant of a chain of folds: levels go down by one to level 0, every strip that is
  still in use is live and has the size of its level, and no strip is in use twice.
\<close>

fun fold_inv :: "world \<Rightarrow> Fold \<Rightarrow> bool" where
  "fold_inv w (Fold lev st sm mn sc msc nw wk rg ol nx) =
     (lev = 0 \<or>
      (0 < lev \<and>
       (case nx of
          None \<Rightarrow> False
        | Some f \<Rightarrow>
            flevel f = lev - 1 \<and> fold_inv w f \<and> strip_at w rg lev \<and>
            (if st = START
             then strip_at w ol lev \<and> rg \<noteq> ol \<and>
                  (set_option rg \<union> set_option ol) \<inter> owned f = {}
             else st = STORE \<and> strip_at w wk lev \<and> strip_at w nw (lev - 1) \<and> rg \<noteq> wk \<and>
                  (set_option rg \<union> set_option wk \<union> set_option nw) \<inter> owned f = {}))))"

text \<open>
  A chain of folds without smoothing whose surface is flat at height \<open>m\<close>: every strip in
  use holds \<open>m\<close> everywhere, but for the odd entries of \<open>regen\<close> in state \<open>START\<close>, which
  \<open>side_update\<close> has yet to fill in.
\<close>

definition all_eq :: "world \<Rightarrow> ptr \<Rightarrow> Height \<Rightarrow> bool" where
  "all_eq w p m = (case strip_data w p of None \<Rightarrow> False | Some xs \<Rightarrow> \<forall>j < length xs. xs ! j = m)"

definition evens_eq :: "world \<Rightarrow> ptr \<Rightarrow> Height \<Rightarrow> bool" where
  "evens_eq w p m =
     (case strip_data w p of None \<Rightarrow> False | Some xs \<Rightarrow> \<forall>j < length xs. even j \<longrightarrow> xs ! j = m)"

fun flat :: "Height \<Rightarrow> world \<Rightarrow> Fold \<Rightarrow> bool" where
  "flat m w (Fold lev st sm mn sc msc nw wk rg ol nx) =
     (mn = m \<and> sm = 0 \<and>
      (lev = 0 \<or>
       (case nx of
          None \<Rightarrow> False
        | Some f \<Rightarrow>
            flat m w f \<and>
            (if st = START then all_eq w ol m \<and> evens_eq w rg m
             else all_eq w rg m \<and> all_eq w wk m \<and> all_eq w nw m))))"

text \<open>
  What a call of \<open>next_strip\<close> on the fold \<open>f\<close> in the store \<open>w\<close> guarantees when
  it returns the strip at \<open>p\<close>, the fold \<open>f'\<close> and the store \<open>w'\<close>: the invariant again,
  a strip of the level of the fold that the fold no longer uses, and no change to any
  strip that existed before and was not in use by the fold.
\<close>

definition call_post :: "Fold \<Rightarrow> world \<Rightarrow> nat \<Rightarrow> Fold \<Rightarrow> world \<Rightarrow> bool" where
  "call_post f w p f' w' =
     (fold_inv w' f' \<and> strip_at w' (Some p) (flevel f) \<and> p \<notin> owned f' \<and> brk w \<le> brk w' \<and>
      (\<forall>a. a < brk w \<longrightarrow> a \<notin> owned f \<longrightarrow> heap w' a = heap w a) \<and>
      owned f' \<subseteq> owned f \<union> {brk w..<brk w'} \<and> p \<in> owned f \<union> {brk w..<brk w'} \<and>
      flevel f' = flevel f)"

subsection \<open>A store to run examples in\<close>

text \<open>
  Four live strips: two of level 0 at the addresses 0 and 1, two of level 1 at the
  addresses 2 and 3. \<open>ramp\<close> is a source of samples that are all different.
\<close>

definition w_ex :: world where
  "w_ex = \<lparr>heap = [0 \<mapsto> \<lparr>level = 0, d = [1, 2]\<rparr>, 1 \<mapsto> \<lparr>level = 0, d = [3, 4]\<rparr>,
                     2 \<mapsto> \<lparr>level = 1, d = [5, 6, 7]\<rparr>, 3 \<mapsto> \<lparr>level = 1, d = [8, 9, 10]\<rparr>],
           brk = 4, junk = (\<lambda>_ _. 9), drawn = 0, calls = []\<rparr>"

definition ramp :: "nat \<Rightarrow> Height" where
  "ramp n = real n + 1"

section \<open>The loops and kernels as list functions\<close>

declare next_strip.simps [simp del]

declare make_fold.simps [simp del]

lemma length_set_list [simp]: "length (set_list v n h ys) = length ys"
  by (induction n arbitrary: h ys) auto

lemma length_double_list [simp]: "length (double_list n a b xs ys) = length ys"
  by (induction n arbitrary: a b ys) auto

lemma length_side_list [simp]: "length (side_list G sc n p k xs) = length xs"
  by (induction n arbitrary: p k xs) auto

lemma length_mid_list [simp]: "length (mid_list G sc msc c l n r k ls rs ns) = length ns"
  by (induction c arbitrary: l n r k ns) auto

lemma set_list_nth:
  "j < length ys \<Longrightarrow> set_list v n h ys ! j = (if h \<le> j \<and> j < h + n then v else ys ! j)"
  by (induction n arbitrary: h ys) (auto simp: nth_list_update)

lemma double_list_nth:
  "j < length ys \<Longrightarrow>
   double_list n a b xs ys ! j =
     (if b \<le> j \<and> j < b + 2 * n
      then (if even (j - b) then xs ! (a + (j - b) div 2) else 0)
      else ys ! j)"
proof (induction n arbitrary: a b ys)
  case 0
  then show ?case by simp
next
  case (Suc n)
  let ?ys = "ys[b := xs ! a, Suc b := 0]"
  have len: "j < length ?ys" using Suc.prems by simp
  consider "j < b" | "j = b" | "j = Suc b" | "b + 2 \<le> j" by linarith
  then show ?case
  proof cases
    case 1
    then show ?thesis using Suc.IH [OF len] Suc.prems by simp
  next
    case 2
    then show ?thesis using Suc.IH [OF len] Suc.prems by simp
  next
    case 3
    then show ?thesis using Suc.IH [OF len] Suc.prems by simp
  next
    case 4
    then obtain t where t: "j = b + 2 + t" by (metis le_Suc_ex)
    have "(2 + t) div 2 = Suc (t div 2)" by simp
    then show ?thesis using Suc.IH [OF len, of "Suc a" "b + 2"] Suc.prems t by simp
  qed
qed

lemma side_list_nth:
  "j < length xs \<Longrightarrow> p + 2 * n < length xs \<Longrightarrow>
   side_list G sc n p k xs ! j =
     (if p < j \<and> j < p + 2 * n \<and> odd (j - p)
      then sc * G (k + (j - p) div 2) + (xs ! (j - 1) + xs ! (j + 1)) / 2
      else xs ! j)"
proof (induction n arbitrary: p k xs)
  case 0
  then show ?case by simp
next
  case (Suc n)
  let ?xs = "xs[Suc p := sc * G k + (xs ! p + xs ! (p + 2)) / 2]"
  have len: "j < length ?xs" "p + 2 + 2 * n < length ?xs" using Suc.prems by simp_all
  note IH = Suc.IH [OF len, of "Suc k"]
  consider "j \<le> p" | "j = Suc p" | "j = p + 2" | "p + 3 \<le> j" by linarith
  then show ?case
  proof cases
    case 1
    then show ?thesis using IH Suc.prems by simp
  next
    case 2
    then show ?thesis using IH Suc.prems by simp
  next
    case 3
    then show ?thesis using IH Suc.prems by simp
  next
    case 4
    then obtain t where t: "j = p + 3 + t" by (metis le_Suc_ex)
    have "(3 + t) div 2 = Suc ((Suc t) div 2)" by presburger
    then show ?thesis using IH Suc.prems t by (simp add: nth_list_update)
  qed
qed

lemma mid_list_nth:
  "j < length ns \<Longrightarrow>
   mid_list G sc msc c l n r k ls rs ns ! j =
     (if n \<le> j \<and> j < n + 2 * c
      then (if even (j - n)
            then sc * G (k + (j - n)) + (ls ! (l + (j - n) div 2) + rs ! (r + (j - n))) / 2
            else msc * G (k + (j - n)) +
                 (ls ! (l + (j - n) div 2) + ls ! Suc (l + (j - n) div 2) +
                  rs ! (r + (j - n) - 1) + rs ! (r + (j - n) + 1)) / 4)
      else ns ! j)"
proof (induction c arbitrary: l n r k ns)
  case 0
  then show ?case by simp
next
  case (Suc c)
  let ?ns = "ns[n := sc * G k + (ls ! l + rs ! r) / 2,
           Suc n := msc * G (Suc k) + (ls ! l + ls ! Suc l + rs ! r + rs ! (r + 2)) / 4]"
  have len: "j < length ?ns" using Suc.prems by simp
  note IH = Suc.IH [OF len, of "Suc l" "n + 2" "r + 2" "k + 2"]
  consider "j < n" | "j = n" | "j = Suc n" | "n + 2 \<le> j" by linarith
  then show ?case
  proof cases
    case 1
    then show ?thesis using IH Suc.prems by simp
  next
    case 2
    then show ?thesis using IH Suc.prems by simp
  next
    case 3
    then show ?thesis using IH Suc.prems by simp
  next
    case 4
    then obtain t where t: "j = n + 2 + t" by (metis le_Suc_ex)
    have "(2 + t) div 2 = Suc (t div 2)" by simp
    then show ?thesis using IH Suc.prems t by (simp add: add.assoc add.commute add.left_commute)
  qed
qed

lemma length_recalc_list [simp]: "length (recalc_list G sc c l g r k ls rs gs) = length gs"
  by (induction c arbitrary: l g r k gs) auto

lemma rd_live:
  "heap w a = Some s \<Longrightarrow> 0 \<le> i \<Longrightarrow> nat i < length (d s) \<Longrightarrow> rd (Some a) i w = Inr (d s ! nat i)"
  by (simp add: rd_def)

lemma wr_live:
  "heap w a = Some s \<Longrightarrow> 0 \<le> i \<Longrightarrow> nat i < length (d s) \<Longrightarrow>
   wr (Some a) i v w = Inr (w\<lparr>heap := (heap w)(a \<mapsto> s\<lparr>d := (d s)[nat i := v]\<rparr>)\<rparr>)"
  by (simp add: wr_def)

lemma get_level_live: "heap w a = Some s \<Longrightarrow> get_level (Some a) w = Inr (level s)"
  by (simp add: get_level_def)

lemma shl1_nonneg: "0 \<le> n \<Longrightarrow> shl1 n = Inr (2 ^ nat n)"
  by (simp add: shl1_def)

lemma make_strip_eq:
  "0 \<le> lev \<Longrightarrow>
   make_strip lev w =
     Inr (Some (brk w),
          w\<lparr>heap := (heap w)(brk w \<mapsto> \<lparr>level = lev, d = map (junk w (brk w)) [0..<2 ^ nat lev + 1]\<rparr>),
            brk := Suc (brk w)\<rparr>)"
  by (simp add: make_strip_def shl1_def Let_def nat_add_distrib nat_power_eq)

lemma set_loop_list:
  "heap w a = Some s \<Longrightarrow> 0 \<le> h \<Longrightarrow> nat h + n \<le> length (d s) \<Longrightarrow>
   set_loop (Some a) v n h w =
     Inr (w\<lparr>heap := (heap w)(a \<mapsto> s\<lparr>d := set_list v n (nat h) (d s)\<rparr>)\<rparr>)"
proof (induction n arbitrary: h w s)
  case 0
  then show ?case by (simp add: fun_upd_idem)
next
  case (Suc n)
  let ?s = "s\<lparr>d := (d s)[nat h := v]\<rparr>"
  let ?w = "w\<lparr>heap := (heap w)(a \<mapsto> ?s)\<rparr>"
  have step: "wr (Some a) h v w = Inr ?w"
    using Suc.prems by (simp add: wr_live)
  have "set_loop (Some a) v (Suc n) h w = set_loop (Some a) v n (h + 1) ?w"
    by (simp only: set_loop.simps step sum.case)
  also have "\<dots> =
      Inr (?w\<lparr>heap := (heap ?w)(a \<mapsto> ?s\<lparr>d := set_list v n (nat (h + 1)) (d ?s)\<rparr>)\<rparr>)"
    using Suc.prems by (intro Suc.IH) auto
  also have "\<dots> = Inr (w\<lparr>heap := (heap w)(a \<mapsto> s\<lparr>d := set_list v (Suc n) (nat h) (d s)\<rparr>)\<rparr>)"
    using Suc.prems(2) by (simp add: nat_add_distrib)
  finally show ?case .
qed

lemma set_list_replicate: "length ys = n \<Longrightarrow> set_list v n 0 ys = replicate n v"
  by (rule nth_equalityI) (simp_all add: set_list_nth)

lemma set_strip_eq:
  assumes "0 \<le> lev"
  shows "set_strip lev v w =
     Inr (Some (brk w),
          w\<lparr>heap := (heap w)(brk w \<mapsto> \<lparr>level = lev, d = replicate (2 ^ nat lev + 1) v\<rparr>),
            brk := Suc (brk w)\<rparr>)"
proof -
  define n :: nat where "n = 2 ^ nat lev + 1"
  define s where "s = \<lparr>level = lev, d = map (junk w (brk w)) [0..<n]\<rparr>"
  define w1 where "w1 = w\<lparr>heap := (heap w)(brk w \<mapsto> s), brk := Suc (brk w)\<rparr>"
  have m: "make_strip lev w = Inr (Some (brk w), w1)"
    using assms by (simp add: make_strip_eq w1_def s_def n_def)
  have k: "nat (2 ^ nat lev + 1) = n"
    by (simp add: n_def nat_add_distrib nat_power_eq)
  have "set_loop (Some (brk w)) v n 0 w1 =
      Inr (w1\<lparr>heap := (heap w1)(brk w \<mapsto> s\<lparr>d := set_list v n (nat 0) (d s)\<rparr>)\<rparr>)"
    by (rule set_loop_list) (simp_all add: w1_def s_def)
  also have "\<dots> = Inr (w\<lparr>heap := (heap w)(brk w \<mapsto> \<lparr>level = lev, d = replicate n v\<rparr>),
            brk := Suc (brk w)\<rparr>)"
    by (simp add: w1_def s_def set_list_replicate)
  finally have l: "set_loop (Some (brk w)) v n 0 w1 =
      Inr (w\<lparr>heap := (heap w)(brk w \<mapsto> \<lparr>level = lev, d = replicate n v\<rparr>),
            brk := Suc (brk w)\<rparr>)" .
  show ?thesis
    unfolding set_strip_def n_def [symmetric]
    by (simp only: m shl1_nonneg [OF assms] k l sum.case prod.case)
qed

lemma double_loop_list:
  "heap w s = Some ss \<Longrightarrow> heap w p = Some sp \<Longrightarrow> s \<noteq> p \<Longrightarrow> 0 \<le> a \<Longrightarrow> 0 \<le> b \<Longrightarrow>
   nat a + n \<le> length (d ss) \<Longrightarrow> nat b + 2 * n \<le> length (d sp) \<Longrightarrow>
   double_loop (Some s) (Some p) n a b w =
     Inr (a + int n, b + 2 * int n,
          w\<lparr>heap := (heap w)(p \<mapsto> sp\<lparr>d := double_list n (nat a) (nat b) (d ss) (d sp)\<rparr>)\<rparr>)"
proof (induction n arbitrary: a b w sp)
  case 0
  then show ?case by (simp add: fun_upd_idem)
next
  case (Suc n)
  let ?x = "d ss ! nat a"
  let ?s1 = "sp\<lparr>d := (d sp)[nat b := ?x]\<rparr>"
  let ?w1 = "w\<lparr>heap := (heap w)(p \<mapsto> ?s1)\<rparr>"
  let ?s2 = "sp\<lparr>d := (d sp)[nat b := ?x, Suc (nat b) := 0]\<rparr>"
  let ?w2 = "w\<lparr>heap := (heap w)(p \<mapsto> ?s2)\<rparr>"
  have r: "rd (Some s) a w = Inr ?x"
    using Suc.prems by (simp add: rd_live)
  have w1: "wr (Some p) b ?x w = Inr ?w1"
    using Suc.prems by (simp add: wr_live)
  have w2: "wr (Some p) (b + 1) 0 ?w1 = Inr ?w2"
    using Suc.prems by (simp add: wr_def nat_add_distrib)
  have "double_loop (Some s) (Some p) (Suc n) a b w =
      double_loop (Some s) (Some p) n (a + 1) (b + 2) ?w2"
    by (simp only: double_loop.simps r w1 w2 sum.case)
  also have "\<dots> =
      Inr (a + 1 + int n, b + 2 + 2 * int n,
           ?w2\<lparr>heap := (heap ?w2)(p \<mapsto> ?s2\<lparr>d := double_list n (nat (a + 1)) (nat (b + 2)) (d ss) (d ?s2)\<rparr>)\<rparr>)"
    using Suc.prems by (intro Suc.IH) auto
  also have "\<dots> = Inr (a + int (Suc n), b + 2 * int (Suc n),
          w\<lparr>heap := (heap w)(p \<mapsto> sp\<lparr>d := double_list (Suc n) (nat a) (nat b) (d ss) (d sp)\<rparr>)\<rparr>)"
    using Suc.prems(4,5) by (simp add: nat_add_distrib)
  finally show ?case .
qed

lemma side_loop_list:
  "heap w a = Some s \<Longrightarrow> 0 \<le> p \<Longrightarrow> nat p + 2 * n < length (d s) \<Longrightarrow>
   side_loop G (Some a) sc n p w =
     Inr (w\<lparr>heap := (heap w)(a \<mapsto> s\<lparr>d := side_list G sc n (nat p) (drawn w) (d s)\<rparr>),
            drawn := drawn w + n\<rparr>)"
proof (induction n arbitrary: p w s)
  case 0
  then show ?case by (simp add: fun_upd_idem)
next
  case (Suc n)
  let ?v = "sc * G (drawn w) + (d s ! nat p + d s ! (nat p + 2)) / 2"
  let ?w1 = "w\<lparr>drawn := Suc (drawn w)\<rparr>"
  let ?s2 = "s\<lparr>d := (d s)[Suc (nat p) := ?v]\<rparr>"
  let ?w2 = "?w1\<lparr>heap := (heap w)(a \<mapsto> ?s2)\<rparr>"
  have g: "gaussian G w = (G (drawn w), ?w1)"
    by (simp add: gaussian_def)
  have r1: "rd (Some a) p ?w1 = Inr (d s ! nat p)"
    using Suc.prems by (simp add: rd_def)
  have r2: "rd (Some a) (p + 2) ?w1 = Inr (d s ! (nat p + 2))"
    using Suc.prems by (simp add: rd_def nat_add_distrib)
  have w2: "wr (Some a) (p + 1) ?v ?w1 = Inr ?w2"
    using Suc.prems by (simp add: wr_def nat_add_distrib)
  have "side_loop G (Some a) sc (Suc n) p w = side_loop G (Some a) sc n (p + 2) ?w2"
    by (simp only: side_loop.simps g r1 r2 w2 prod.case sum.case)
  also have "\<dots> =
      Inr (?w2\<lparr>heap := (heap ?w2)(a \<mapsto> ?s2\<lparr>d := side_list G sc n (nat (p + 2)) (drawn ?w2) (d ?s2)\<rparr>),
             drawn := drawn ?w2 + n\<rparr>)"
    using Suc.prems by (intro Suc.IH) auto
  also have "\<dots> = Inr (w\<lparr>heap := (heap w)(a \<mapsto> s\<lparr>d := side_list G sc (Suc n) (nat p) (drawn w) (d s)\<rparr>),
            drawn := drawn w + Suc n\<rparr>)"
    using Suc.prems(2) by (simp add: nat_add_distrib)
  finally show ?case .
qed

lemma mid_loop_list:
  "heap w l = Some sl \<Longrightarrow> heap w n = Some sn \<Longrightarrow> heap w r = Some sr \<Longrightarrow> n \<noteq> l \<Longrightarrow> n \<noteq> r \<Longrightarrow>
   0 \<le> lo \<Longrightarrow> 0 \<le> no \<Longrightarrow> 0 \<le> ro \<Longrightarrow>
   nat lo + c < length (d sl) \<Longrightarrow> nat no + 2 * c \<le> length (d sn) \<Longrightarrow> nat ro + 2 * c < length (d sr) \<Longrightarrow>
   mid_loop G (Some l) (Some n) (Some r) sc msc c lo no ro w =
     Inr (lo + int c, no + 2 * int c, ro + 2 * int c,
          w\<lparr>heap := (heap w)(n \<mapsto> sn\<lparr>d := mid_list G sc msc c (nat lo) (nat no) (nat ro) (drawn w)
                                              (d sl) (d sr) (d sn)\<rparr>),
            drawn := drawn w + 2 * c\<rparr>)"
proof (induction c arbitrary: lo no ro w sn)
  case 0
  then show ?case by (simp add: fun_upd_idem)
next
  case (Suc c)
  let ?xl = "d sl ! nat lo" and ?xl1 = "d sl ! Suc (nat lo)"
  let ?xr = "d sr ! nat ro" and ?xr2 = "d sr ! (nat ro + 2)"
  let ?v1 = "sc * G (drawn w) + (?xl + ?xr) / 2"
  let ?v2 = "msc * G (Suc (drawn w)) + (?xl + ?xl1 + ?xr + ?xr2) / 4"
  let ?w1 = "w\<lparr>drawn := Suc (drawn w)\<rparr>"
  let ?s2 = "sn\<lparr>d := (d sn)[nat no := ?v1]\<rparr>"
  let ?w2 = "?w1\<lparr>heap := (heap w)(n \<mapsto> ?s2)\<rparr>"
  let ?w3 = "?w2\<lparr>drawn := Suc (Suc (drawn w))\<rparr>"
  let ?s4 = "sn\<lparr>d := (d sn)[nat no := ?v1, Suc (nat no) := ?v2]\<rparr>"
  let ?w4 = "?w3\<lparr>heap := (heap w)(n \<mapsto> ?s4)\<rparr>"
  have g1: "gaussian G w = (G (drawn w), ?w1)"
    by (simp add: gaussian_def)
  have a1: "rd (Some l) lo ?w1 = Inr ?xl"
    using Suc.prems by (simp add: rd_def)
  have a2: "rd (Some r) ro ?w1 = Inr ?xr"
    using Suc.prems by (simp add: rd_def)
  have a3: "wr (Some n) no ?v1 ?w1 = Inr ?w2"
    using Suc.prems by (simp add: wr_def)
  have g2: "gaussian G ?w2 = (G (Suc (drawn w)), ?w3)"
    by (simp add: gaussian_def)
  have b1: "rd (Some l) lo ?w3 = Inr ?xl"
    using Suc.prems by (simp add: rd_def)
  have b2: "rd (Some l) (lo + 1) ?w3 = Inr ?xl1"
    using Suc.prems by (simp add: rd_def nat_add_distrib)
  have b3: "rd (Some r) ro ?w3 = Inr ?xr"
    using Suc.prems by (simp add: rd_def)
  have b4: "rd (Some r) (ro + 2) ?w3 = Inr ?xr2"
    using Suc.prems by (simp add: rd_def nat_add_distrib)
  have b5: "wr (Some n) (no + 1) ?v2 ?w3 = Inr ?w4"
    using Suc.prems by (simp add: wr_def nat_add_distrib)
  have "mid_loop G (Some l) (Some n) (Some r) sc msc (Suc c) lo no ro w =
      mid_loop G (Some l) (Some n) (Some r) sc msc c (lo + 1) (no + 2) (ro + 2) ?w4"
    by (simp only: mid_loop.simps g1 a1 a2 a3 g2 b1 b2 b3 b4 b5 prod.case sum.case)
  also have "\<dots> =
      Inr (lo + 1 + int c, no + 2 + 2 * int c, ro + 2 + 2 * int c,
           ?w4\<lparr>heap := (heap ?w4)(n \<mapsto> ?s4\<lparr>d := mid_list G sc msc c (nat (lo + 1)) (nat (no + 2))
                (nat (ro + 2)) (drawn ?w4) (d sl) (d sr) (d ?s4)\<rparr>),
             drawn := drawn ?w4 + 2 * c\<rparr>)"
    using Suc.prems by (intro Suc.IH) auto
  also have "\<dots> = Inr (lo + int (Suc c), no + 2 * int (Suc c), ro + 2 * int (Suc c),
          w\<lparr>heap := (heap w)(n \<mapsto> sn\<lparr>d := mid_list G sc msc (Suc c) (nat lo) (nat no) (nat ro) (drawn w)
                                              (d sl) (d sr) (d sn)\<rparr>),
            drawn := drawn w + 2 * Suc c\<rparr>)"
    using Suc.prems(6,7,8) by (simp add: nat_add_distrib)
  finally show ?case .
qed

lemma recalc_loop_list:
  "heap w l = Some sl \<Longrightarrow> heap w g = Some sg \<Longrightarrow> heap w r = Some sr \<Longrightarrow> g \<noteq> l \<Longrightarrow> g \<noteq> r \<Longrightarrow>
   0 \<le> lo \<Longrightarrow> 1 \<le> go \<Longrightarrow> 0 \<le> ro \<Longrightarrow>
   nat lo + 2 * c < length (d sl) \<Longrightarrow> nat go + 2 * c < length (d sg) \<Longrightarrow>
   nat ro + 2 * c < length (d sr) \<Longrightarrow>
   recalc_loop G (Some l) (Some g) (Some r) sc c lo go ro w =
     Inr (lo + 2 * int c, go + 2 * int c, ro + 2 * int c,
          w\<lparr>heap := (heap w)(g \<mapsto> sg\<lparr>d := recalc_list G sc c (nat lo) (nat go) (nat ro) (drawn w)
                                              (d sl) (d sr) (d sg)\<rparr>),
            drawn := drawn w + c\<rparr>)"
proof (induction c arbitrary: lo go ro w sg)
  case 0
  then show ?case by (simp add: fun_upd_idem)
next
  case (Suc c)
  let ?v = "sc * G (drawn w) +
      (d sl ! nat lo + d sg ! Suc (nat go) + d sg ! (nat go - 1) + d sr ! nat ro) / 4"
  let ?w1 = "w\<lparr>drawn := Suc (drawn w)\<rparr>"
  let ?s2 = "sg\<lparr>d := (d sg)[nat go := ?v]\<rparr>"
  let ?w2 = "?w1\<lparr>heap := (heap w)(g \<mapsto> ?s2)\<rparr>"
  have g1: "gaussian G w = (G (drawn w), ?w1)"
    by (simp add: gaussian_def)
  have a1: "rd (Some l) lo ?w1 = Inr (d sl ! nat lo)"
    using Suc.prems by (simp add: rd_def)
  have a2: "rd (Some g) (go + 1) ?w1 = Inr (d sg ! Suc (nat go))"
    using Suc.prems by (simp add: rd_def nat_add_distrib)
  have a3: "rd (Some g) (go - 1) ?w1 = Inr (d sg ! (nat go - 1))"
    using Suc.prems by (simp add: rd_def nat_diff_distrib)
  have a4: "rd (Some r) ro ?w1 = Inr (d sr ! nat ro)"
    using Suc.prems by (simp add: rd_def)
  have a5: "wr (Some g) go ?v ?w1 = Inr ?w2"
    using Suc.prems by (simp add: wr_def)
  have "recalc_loop G (Some l) (Some g) (Some r) sc (Suc c) lo go ro w =
      recalc_loop G (Some l) (Some g) (Some r) sc c (lo + 2) (go + 2) (ro + 2) ?w2"
    by (simp only: recalc_loop.simps g1 a1 a2 a3 a4 a5 prod.case sum.case)
  also have "\<dots> =
      Inr (lo + 2 + 2 * int c, go + 2 + 2 * int c, ro + 2 + 2 * int c,
           ?w2\<lparr>heap := (heap ?w2)(g \<mapsto> ?s2\<lparr>d := recalc_list G sc c (nat (lo + 2)) (nat (go + 2))
                (nat (ro + 2)) (drawn ?w2) (d sl) (d sr) (d ?s2)\<rparr>),
             drawn := drawn ?w2 + c\<rparr>)"
    using Suc.prems by (intro Suc.IH) auto
  also have "\<dots> = Inr (lo + 2 * int (Suc c), go + 2 * int (Suc c), ro + 2 * int (Suc c),
          w\<lparr>heap := (heap w)(g \<mapsto> sg\<lparr>d := recalc_list G sc (Suc c) (nat lo) (nat go) (nat ro) (drawn w)
                                              (d sl) (d sr) (d sg)\<rparr>),
            drawn := drawn w + Suc c\<rparr>)"
    using Suc.prems(6,7,8) by (simp add: nat_add_distrib)
  finally show ?case .
qed

lemma length_doubled [simp]: "length (doubled xs) = 2 * (length xs - 1) + 1"
  by (simp add: doubled_def)

lemma doubled_nth:
  "j < 2 * (length xs - 1) + 1 \<Longrightarrow> doubled xs ! j = (if even j then xs ! (j div 2) else 0)"
  by (simp add: doubled_def del: upt_Suc)

lemma length_side_data [simp]: "length (side_data G sc k xs) = length xs"
  by (simp add: side_data_def)

lemma side_data_nth:
  "j < length xs \<Longrightarrow>
   side_data G sc k xs ! j =
     (if odd j then sc * G (k + j div 2) + (xs ! (j - 1) + xs ! (j + 1)) / 2 else xs ! j)"
  by (simp add: side_data_def del: upt_Suc)

lemma length_mid_data [simp]: "length (mid_data G sc msc k ls rs) = length rs"
  by (simp add: mid_data_def)

lemma mid_data_nth:
  "j < length rs \<Longrightarrow>
   mid_data G sc msc k ls rs ! j =
     (if even j then sc * G (k + j) + (ls ! (j div 2) + rs ! j) / 2
      else msc * G (k + j) +
           (ls ! (j div 2) + ls ! Suc (j div 2) + rs ! (j - 1) + rs ! (j + 1)) / 4)"
  by (simp add: mid_data_def del: upt_Suc)

lemma double_strip_eq:
  assumes s: "heap w s = Some ss" and ne: "s \<noteq> brk w" and lev: "0 \<le> level ss"
    and len: "length (d ss) = 2 ^ nat (level ss) + 1"
  shows "double_strip (Some s) w =
     Inr (Some (brk w),
          w\<lparr>heap := (heap w)(brk w \<mapsto> \<lparr>level = level ss + 1, d = doubled (d ss)\<rparr>),
            brk := Suc (brk w)\<rparr>)"
proof -
  define n :: nat where "n = 2 ^ nat (level ss)"
  define J where "J = map (junk w (brk w)) [0..<2 * n + 1]"
  define sp where "sp = \<lparr>level = level ss + 1, d = J\<rparr>"
  define w1 where "w1 = w\<lparr>heap := (heap w)(brk w \<mapsto> sp), brk := Suc (brk w)\<rparr>"
  define D where "D = double_list n 0 0 (d ss) J"
  define w2 where "w2 = w1\<lparr>heap := (heap w1)(brk w \<mapsto> sp\<lparr>d := D\<rparr>)\<rparr>"
  have gl: "get_level (Some s) w = Inr (level ss)"
    using s by (rule get_level_live)
  have pw: "(2::nat) ^ nat (level ss + 1) = 2 * n"
    using lev by (simp add: n_def nat_add_distrib)
  have m: "make_strip (level ss + 1) w = Inr (Some (brk w), w1)"
    using lev by (simp add: make_strip_eq w1_def sp_def J_def pw)
  have sh: "shl1 (level ss) = Inr (int n)"
    using lev by (simp add: shl1_nonneg n_def)
  have "double_loop (Some s) (Some (brk w)) n 0 0 w1 =
      Inr (0 + int n, 0 + 2 * int n,
           w1\<lparr>heap := (heap w1)(brk w \<mapsto> sp\<lparr>d := double_list n (nat 0) (nat 0) (d ss) (d sp)\<rparr>)\<rparr>)"
    using s ne len by (intro double_loop_list) (simp_all add: w1_def sp_def J_def n_def)
  then have lp: "double_loop (Some s) (Some (brk w)) (nat (int n)) 0 0 w1 = Inr (int n, 2 * int n, w2)"
    by (simp add: w2_def D_def sp_def)
  have len': "length (d ss) = n + 1"
    using len by (simp add: n_def)
  have r: "rd (Some s) (int n) w2 = Inr (d ss ! n)"
    using s ne len' by (simp add: rd_def w2_def w1_def)
  have lD: "length D = 2 * n + 1"
    by (simp add: D_def J_def)
  have wf: "wr (Some (brk w)) (2 * int n) (d ss ! n) w2 =
      Inr (w2\<lparr>heap := (heap w2)(brk w \<mapsto> sp\<lparr>d := D[2 * n := d ss ! n]\<rparr>)\<rparr>)"
    using lD by (simp add: wr_def w2_def nat_mult_distrib)
  have fin: "D[2 * n := d ss ! n] = doubled (d ss)"
  proof (rule nth_equalityI)
    show "length (D[2 * n := d ss ! n]) = length (doubled (d ss))"
      using lD len' by simp
  next
    fix j assume "j < length (D[2 * n := d ss ! n])"
    then have j: "j < 2 * n + 1" using lD by simp
    then have jJ: "j < length J" by (simp add: J_def)
    have jd: "j < 2 * (length (d ss) - 1) + 1" using j len' by simp
    show "D[2 * n := d ss ! n] ! j = doubled (d ss) ! j"
    proof (cases "j = 2 * n")
      case True
      then show ?thesis using lD doubled_nth [OF jd] by simp
    next
      case False
      then have "j < 2 * n" using j by simp
      then show ?thesis
        using False double_list_nth [OF jJ, of n 0 0 "d ss"] doubled_nth [OF jd] by (simp add: D_def)
    qed
  qed
  have "double_strip (Some s) w =
      Inr (Some (brk w), w2\<lparr>heap := (heap w2)(brk w \<mapsto> sp\<lparr>d := D[2 * n := d ss ! n]\<rparr>)\<rparr>)"
    unfolding double_strip_def by (simp only: gl m sh lp r wf sum.case prod.case)
  also have "\<dots> = Inr (Some (brk w),
          w\<lparr>heap := (heap w)(brk w \<mapsto> \<lparr>level = level ss + 1, d = doubled (d ss)\<rparr>),
            brk := Suc (brk w)\<rparr>)"
    by (simp add: fin w2_def w1_def sp_def)
  finally show ?thesis .
qed

lemma side_update_eq:
  assumes s: "heap w a = Some s" and lev: "1 \<le> level s"
    and len: "length (d s) = 2 ^ nat (level s) + 1"
  shows "side_update G (Some a) sc w =
     Inr (w\<lparr>heap := (heap w)(a \<mapsto> s\<lparr>d := side_data G sc (drawn w) (d s)\<rparr>),
            drawn := drawn w + 2 ^ nat (level s - 1)\<rparr>)"
proof -
  define n :: nat where "n = 2 ^ nat (level s - 1)"
  have pw: "(2::nat) ^ nat (level s) = 2 * n"
  proof -
    have "nat (level s) = Suc (nat (level s - 1))" using lev by simp
    then show ?thesis by (simp add: n_def)
  qed
  have gl: "get_level (Some a) w = Inr (level s)"
    using s by (rule get_level_live)
  have sh: "shl1 (level s - 1) = Inr (int n)"
    using lev by (simp add: shl1_nonneg n_def)
  have fin: "side_list G sc n 0 (drawn w) (d s) = side_data G sc (drawn w) (d s)"
  proof (rule nth_equalityI)
    show "length (side_list G sc n 0 (drawn w) (d s)) = length (side_data G sc (drawn w) (d s))"
      by simp
  next
    fix j assume "j < length (side_list G sc n 0 (drawn w) (d s))"
    then have j: "j < length (d s)" by simp
    have b: "0 + 2 * n < length (d s)" using len pw by simp
    have "odd j \<Longrightarrow> j < 2 * n"
      using j len pw by (metis Suc_eq_plus1 dvd_triv_left less_Suc_eq)
    then show "side_list G sc n 0 (drawn w) (d s) ! j = side_data G sc (drawn w) (d s) ! j"
      using side_list_nth [OF j b, of G sc "drawn w"] side_data_nth [OF j, of G sc "drawn w"]
      by (auto elim: oddE)
  qed
  have lp: "side_loop G (Some a) sc n 0 w =
      Inr (w\<lparr>heap := (heap w)(a \<mapsto> s\<lparr>d := side_data G sc (drawn w) (d s)\<rparr>),
             drawn := drawn w + n\<rparr>)"
    using side_loop_list [OF s, of 0 n G sc] len pw by (simp add: fin)
  show ?thesis
    unfolding side_update_def n_def [symmetric]
    by (simp only: gl sh lp sum.case nat_int)
qed

lemma mid_update_eq:
  assumes l: "heap w l = Some sl" and n: "heap w n = Some sn" and r: "heap w r = Some sr"
    and nl: "n \<noteq> l" and nr: "n \<noteq> r"
    and ll: "level sl = level sn - 1" and lr: "level sn = level sr" and l0: "0 \<le> level sl"
    and lenl: "length (d sl) = 2 ^ nat (level sl) + 1"
    and lenn: "length (d sn) = 2 ^ nat (level sn) + 1"
    and lenr: "length (d sr) = 2 ^ nat (level sr) + 1"
  shows "mid_update G (Some l) (Some n) (Some r) sc msc w =
     Inr (w\<lparr>heap := (heap w)(n \<mapsto> sn\<lparr>d := mid_data G sc msc (drawn w) (d sl) (d sr)\<rparr>),
            drawn := drawn w + 2 ^ nat (level sn) + 1\<rparr>)"
proof -
  define c :: nat where "c = 2 ^ nat (level sl)"
  define k where "k = drawn w"
  define D where "D = mid_list G sc msc c 0 0 0 k (d sl) (d sr) (d sn)"
  define w1 where "w1 = w\<lparr>heap := (heap w)(n \<mapsto> sn\<lparr>d := D\<rparr>), drawn := k + 2 * c\<rparr>"
  define w2 where "w2 = w1\<lparr>drawn := Suc (k + 2 * c)\<rparr>"
  define v where "v = sc * G (k + 2 * c) + (d sl ! c + d sr ! (2 * c)) / 2"
  have pw: "(2::nat) ^ nat (level sn) = 2 * c"
  proof -
    have "nat (level sn) = Suc (nat (level sl))" using ll l0 by simp
    then show ?thesis by (simp add: c_def)
  qed
  have Ll: "length (d sl) = c + 1" using lenl by (simp add: c_def)
  have Ln: "length (d sn) = 2 * c + 1" using lenn pw by simp
  have Lr: "length (d sr) = 2 * c + 1" using lenr lr pw by simp
  have g1: "get_level (Some l) w = Inr (level sl)" using l by (rule get_level_live)
  have g2: "get_level (Some n) w = Inr (level sn)" using n by (rule get_level_live)
  have g3: "get_level (Some r) w = Inr (level sr)" using r by (rule get_level_live)
  have chk: "(level sl \<noteq> level sn - 1) = False" "(level sn \<noteq> level sr) = False"
    using ll lr by simp_all
  have sh: "shl1 (level sl) = Inr (int c)" using l0 by (simp add: shl1_nonneg c_def)
  have lp: "mid_loop G (Some l) (Some n) (Some r) sc msc (nat (int c)) 0 0 0 w =
      Inr (int c, 2 * int c, 2 * int c, w1)"
    using mid_loop_list [OF l n r nl nr, of 0 0 0 c G sc msc] Ll Ln Lr
    by (simp add: w1_def D_def k_def)
  have ga: "gaussian G w1 = (G (k + 2 * c), w2)"
    by (simp add: gaussian_def w1_def w2_def)
  have r1: "rd (Some l) (int c) w2 = Inr (d sl ! c)"
    using l nl Ll by (simp add: rd_def w2_def w1_def)
  have r2: "rd (Some r) (2 * int c) w2 = Inr (d sr ! (2 * c))"
    using r nr Lr by (simp add: rd_def w2_def w1_def nat_mult_distrib)
  have lD: "length D = 2 * c + 1" using Ln by (simp add: D_def)
  have wf: "wr (Some n) (2 * int c) v w2 =
      Inr (w2\<lparr>heap := (heap w2)(n \<mapsto> sn\<lparr>d := D[2 * c := v]\<rparr>)\<rparr>)"
    using lD by (simp add: wr_def w2_def w1_def nat_mult_distrib)
  have fin: "D[2 * c := v] = mid_data G sc msc k (d sl) (d sr)"
  proof (rule nth_equalityI)
    show "length (D[2 * c := v]) = length (mid_data G sc msc k (d sl) (d sr))"
      using lD Lr by simp
  next
    fix j assume "j < length (D[2 * c := v])"
    then have j: "j < 2 * c + 1" using lD by simp
    then have jn: "j < length (d sn)" and jr: "j < length (d sr)" using Ln Lr by simp_all
    show "D[2 * c := v] ! j = mid_data G sc msc k (d sl) (d sr) ! j"
    proof (cases "j = 2 * c")
      case True
      then show ?thesis using lD mid_data_nth [OF jr, of G sc msc k "d sl"] by (simp add: v_def)
    next
      case False
      then have "j < 2 * c" using j by simp
      then show ?thesis
        using False mid_list_nth [OF jn, of G sc msc c 0 0 0 k "d sl" "d sr"]
          mid_data_nth [OF jr, of G sc msc k "d sl"]
        by (simp add: D_def)
    qed
  qed
  have "mid_update G (Some l) (Some n) (Some r) sc msc w =
      Inr (w2\<lparr>heap := (heap w2)(n \<mapsto> sn\<lparr>d := D[2 * c := v]\<rparr>)\<rparr>)"
    unfolding mid_update_def v_def
    by (simp only: g1 g2 g3 chk if_False sh lp ga r1 r2 wf [unfolded v_def] sum.case prod.case)
  also have "\<dots> = Inr (w\<lparr>heap := (heap w)(n \<mapsto> sn\<lparr>d := mid_data G sc msc (drawn w) (d sl) (d sr)\<rparr>),
            drawn := drawn w + 2 ^ nat (level sn) + 1\<rparr>)"
    by (simp add: fin w2_def w1_def pw) (simp add: k_def)
  finally show ?thesis .
qed

lemma recalc_shape:
  assumes l: "heap w l = Some sl" and g: "heap w g = Some sg" and r: "heap w r = Some sr"
    and gl: "g \<noteq> l" and gr: "g \<noteq> r"
    and ll: "level sl = level sg" and lr: "level sg = level sr" and l1: "1 \<le> level sg"
    and lenl: "length (d sl) = 2 ^ nat (level sl) + 1"
    and leng: "length (d sg) = 2 ^ nat (level sg) + 1"
    and lenr: "length (d sr) = 2 ^ nat (level sr) + 1"
  shows "\<exists>ds. length ds = length (d sg) \<and>
     recalc G (Some l) (Some g) (Some r) sc w =
       Inr (w\<lparr>heap := (heap w)(g \<mapsto> sg\<lparr>d := ds\<rparr>), drawn := drawn w + 2 ^ nat (level sg - 1) + 1\<rparr>)"
proof -
  define c :: nat where "c = 2 ^ nat (level sg - 1)"
  define k where "k = drawn w"
  have pw: "(2::nat) ^ nat (level sg) = 2 * c"
  proof -
    have "nat (level sg) = Suc (nat (level sg - 1))" using l1 by simp
    then show ?thesis by (simp add: c_def)
  qed
  have c1: "1 \<le> c" by (simp add: c_def)
  have Ll: "length (d sl) = 2 * c + 1" using lenl ll pw by simp
  have Lg: "length (d sg) = 2 * c + 1" using leng pw by simp
  have Lr: "length (d sr) = 2 * c + 1" using lenr lr pw by simp
  define v0 where "v0 = sc * G k + (d sl ! 0 + d sg ! 1 + d sr ! 0) / 3"
  define s2 where "s2 = sg\<lparr>d := (d sg)[0 := v0]\<rparr>"
  define w1 where "w1 = w\<lparr>drawn := Suc k\<rparr>"
  define w2 where "w2 = w1\<lparr>heap := (heap w)(g \<mapsto> s2)\<rparr>"
  define D where "D = recalc_list G sc (c - 1) 2 2 2 (Suc k) (d sl) (d sr) (d s2)"
  define w3 where "w3 = w2\<lparr>heap := (heap w2)(g \<mapsto> s2\<lparr>d := D\<rparr>), drawn := Suc k + (c - 1)\<rparr>"
  define w4 where "w4 = w3\<lparr>drawn := Suc (Suc k + (c - 1))\<rparr>"
  define v1 where "v1 = sc * G (Suc k + (c - 1)) + (d sl ! (2 * c) + D ! (2 * c - 1) + d sr ! (2 * c)) / 3"
  have g1: "get_level (Some l) w = Inr (level sl)" using l by (rule get_level_live)
  have g2: "get_level (Some g) w = Inr (level sg)" using g by (rule get_level_live)
  have g3: "get_level (Some r) w = Inr (level sr)" using r by (rule get_level_live)
  have chk: "(level sl \<noteq> level sg) = False" "(level sg \<noteq> level sr) = False"
    using ll lr by simp_all
  have sh: "shl1 (level sg - 1) = Inr (int c)" using l1 by (simp add: shl1_nonneg c_def)
  have ga: "gaussian G w = (G k, w1)"
    by (simp add: gaussian_def w1_def k_def)
  have a1: "rd (Some l) 0 w1 = Inr (d sl ! 0)" using l Ll by (simp add: rd_def w1_def)
  have a2: "rd (Some g) 1 w1 = Inr (d sg ! 1)" using g Lg c1 by (simp add: rd_def w1_def)
  have a3: "rd (Some r) 0 w1 = Inr (d sr ! 0)" using r Lr by (simp add: rd_def w1_def)
  have a4: "wr (Some g) 0 v0 w1 = Inr w2"
    using g Lg by (simp add: wr_def w1_def w2_def s2_def)
  have h2: "heap w2 l = Some sl" "heap w2 g = Some s2" "heap w2 r = Some sr"
    using l r gl gr by (simp_all add: w2_def w1_def)
  have nc: "nat (int c - 1) = c - 1" by simp
  have lp: "recalc_loop G (Some l) (Some g) (Some r) sc (nat (int c - 1)) 2 2 2 w2 =
      Inr (2 * int c, 2 * int c, 2 * int c, w3)"
    using recalc_loop_list [OF h2 gl gr, of 2 2 2 "c - 1" G sc] Ll Lg Lr c1
    by (simp add: nc w3_def D_def s2_def w2_def w1_def of_nat_diff algebra_simps)
  have gb: "gaussian G w3 = (G (Suc k + (c - 1)), w4)"
    by (simp add: gaussian_def w3_def w4_def)
  have lD: "length D = 2 * c + 1" using Lg by (simp add: D_def s2_def)
  have b1: "rd (Some l) (2 * int c) w4 = Inr (d sl ! (2 * c))"
    using l gl Ll by (simp add: rd_def w4_def w3_def w2_def w1_def nat_mult_distrib)
  have b2: "rd (Some g) (2 * int c - 1) w4 = Inr (D ! (2 * c - 1))"
    using lD c1 by (simp add: rd_def w4_def w3_def nat_diff_distrib nat_mult_distrib)
  have b3: "rd (Some r) (2 * int c) w4 = Inr (d sr ! (2 * c))"
    using r gr Lr by (simp add: rd_def w4_def w3_def w2_def w1_def nat_mult_distrib)
  have b4: "wr (Some g) (2 * int c) v1 w4 =
      Inr (w4\<lparr>heap := (heap w4)(g \<mapsto> s2\<lparr>d := D[2 * c := v1]\<rparr>)\<rparr>)"
    using lD by (simp add: wr_def w4_def w3_def nat_mult_distrib)
  have "recalc G (Some l) (Some g) (Some r) sc w =
      Inr (w4\<lparr>heap := (heap w4)(g \<mapsto> s2\<lparr>d := D[2 * c := v1]\<rparr>)\<rparr>)"
    unfolding recalc_def v0_def v1_def
    by (simp only: g1 g2 g3 chk if_False sh ga a1 a2 a3 a4 [unfolded v0_def] lp gb b1 b2 b3
        b4 [unfolded v1_def] sum.case prod.case)
  also have "\<dots> = Inr (w\<lparr>heap := (heap w)(g \<mapsto> sg\<lparr>d := D[2 * c := v1]\<rparr>),
      drawn := drawn w + 2 ^ nat (level sg - 1) + 1\<rparr>)"
    using c1 by (simp add: w4_def w3_def w2_def w1_def s2_def c_def [symmetric]) (simp add: k_def)
  finally show ?thesis
    using lD Lg by (intro exI [of _ "D[2 * c := v1]"]) simp
qed

lemma base_body:
  "next_strip G (Fold 0 st sm mn sc msc nw wk rg ol nx) w =
     Inr (Some (brk w), Fold 0 st sm mn sc msc nw wk rg ol nx,
          w\<lparr>heap := (heap w)(brk w \<mapsto> \<lparr>level = 0, d = [mn + sc * G (drawn w), mn + sc * G (Suc (drawn w))]\<rparr>),
            brk := Suc (brk w), drawn := drawn w + 2, calls := 0 # calls w\<rparr>)"
  by (simp add: next_strip.simps make_strip_eq gaussian_def wr_def upt_rec)

lemma store_body:
  assumes lev: "lev \<noteq> 0" and n: "heap w n = Some sn" and nb: "n \<noteq> brk w"
    and ln: "0 \<le> level sn" and len: "length (d sn) = 2 ^ nat (level sn) + 1"
  shows "next_strip G (Fold lev STORE sm mn sc msc (Some n) wk rg ol nx) w =
     Inr (rg, Fold lev START sm mn sc msc None None (Some (brk w)) wk nx,
          w\<lparr>heap := (heap w)(brk w \<mapsto> \<lparr>level = level sn + 1, d = doubled (d sn)\<rparr>, n := None),
            brk := Suc (brk w), calls := lev # calls w\<rparr>)"
proof -
  define wl where "wl = w\<lparr>calls := lev # calls w\<rparr>"
  define w1 where "w1 = wl\<lparr>heap := (heap wl)(brk wl \<mapsto> \<lparr>level = level sn + 1, d = doubled (d sn)\<rparr>),
            brk := Suc (brk wl)\<rparr>"
  have hn: "heap wl n = Some sn" "n \<noteq> brk wl" using n nb by (simp_all add: wl_def)
  have ds: "double_strip (Some n) wl = Inr (Some (brk wl), w1)"
    using double_strip_eq [OF hn ln len] by (simp add: w1_def)
  have fs: "free_strip (Some n) w1 = Inr (w1\<lparr>heap := (heap w1)(n := None)\<rparr>)"
    using hn by (simp add: free_strip_def w1_def)
  have ne: "STORE \<noteq> START" by (simp add: START_def STORE_def)
  have "next_strip G (Fold lev STORE sm mn sc msc (Some n) wk rg ol nx) w =
      Inr (rg, Fold lev START sm mn sc msc None None (Some (brk wl)) wk nx,
           w1\<lparr>heap := (heap w1)(n := None)\<rparr>)"
    unfolding next_strip.simps Let_def wl_def [symmetric]
    by (simp only: lev ne if_False if_True ds fs sum.case prod.case simp_thms)
  then show ?thesis
    by (simp add: w1_def wl_def)
qed

lemma start_body:
  assumes lev: "1 \<le> lev"
    and sub: "next_strip G g (w\<lparr>calls := lev # calls w\<rparr>) = Inr (Some n, g', w1)"
    and r: "heap w1 r = Some sr" "level sr = lev" "length (d sr) = 2 ^ nat lev + 1"
    and q: "heap w1 q = Some sq" "level sq = lev" "length (d sq) = 2 ^ nat lev + 1"
    and n: "heap w1 n = Some sn" "level sn = lev - 1" "length (d sn) = 2 ^ nat (lev - 1) + 1"
    and ne: "r \<noteq> q" "r \<noteq> brk w1" "q \<noteq> brk w1" "n \<noteq> brk w1"
  shows "\<exists>dr. length dr = length (d sr) \<and> (sm = 0 \<longrightarrow> dr = side_data G sc (drawn w1) (d sr)) \<and>
     next_strip G (Fold lev START sm mn sc msc nw wk (Some r) (Some q) (Some g)) w =
       Inr (Some q,
            Fold lev STORE sm mn sc msc (Some n) (Some (brk w1)) (Some r) (Some q) (Some g'),
            w1\<lparr>heap := (heap w1)
                   (brk w1 \<mapsto> \<lparr>level = lev,
                              d = mid_data G sc msc (drawn w1 + 2 ^ nat (lev - 1)) (d sn)
                                    (side_data G sc (drawn w1) (d sr))\<rparr>,
                    r \<mapsto> sr\<lparr>d := dr\<rparr>),
               brk := Suc (brk w1),
               drawn := drawn w1 + 2 ^ nat (lev - 1) + 2 ^ nat lev + 1 +
                        (if sm = 0 then 0 else 2 ^ nat (lev - 1) + 1)\<rparr>)"
proof -
  define c :: nat where "c = 2 ^ nat (lev - 1)"
  define k where "k = drawn w1"
  define K where "K = brk w1"
  define ds where "ds = side_data G sc k (d sr)"
  define w2 where "w2 = w1\<lparr>heap := (heap w1)(r \<mapsto> sr\<lparr>d := ds\<rparr>), drawn := k + c\<rparr>"
  define J where "J = \<lparr>level = lev, d = map (junk w2 K) [0..<2 ^ nat lev + 1]\<rparr>"
  define w3 where "w3 = w2\<lparr>heap := (heap w2)(K \<mapsto> J), brk := Suc K\<rparr>"
  define dm where "dm = mid_data G sc msc (k + c) (d sn) ds"
  define w4 where "w4 = w3\<lparr>heap := (heap w3)(K \<mapsto> J\<lparr>d := dm\<rparr>), drawn := k + c + 2 ^ nat lev + 1\<rparr>"
  have nr: "n \<noteq> r" using r(1,2) n(1,2) by auto
  have no: "n \<noteq> q" using q(1,2) n(1,2) by auto
  have su: "side_update G (Some r) sc w1 = Inr w2"
    using side_update_eq [OF r(1), of G sc] lev r(2,3) by (simp add: w2_def ds_def k_def c_def)
  have ms: "make_strip lev w2 = Inr (Some K, w3)"
    using lev make_strip_eq [of lev w2] by (simp add: w3_def J_def) (simp add: w2_def K_def)
  have h3: "heap w3 n = Some sn" "heap w3 K = Some J" "heap w3 r = Some (sr\<lparr>d := ds\<rparr>)"
    using n(1) nr ne by (simp_all add: w3_def w2_def K_def)
  have mu: "mid_update G (Some n) (Some K) (Some r) sc msc w3 = Inr w4"
    using mid_update_eq [OF h3, of G sc msc] ne lev r(2,3) n(2,3)
    by (simp add: K_def J_def ds_def) (simp add: w4_def dm_def w3_def w2_def J_def ds_def K_def)
  have ne0: "START = START" by simp
  have l0: "lev \<noteq> 0" using lev by simp
  have body: "next_strip G (Fold lev START sm mn sc msc nw wk (Some r) (Some q) (Some g)) w =
      (case (if sm \<noteq> 0 then recalc G (Some K) (Some r) (Some q) sc w4 else Inr w4) of
         Inl e \<Rightarrow> Inl e
       | Inr w5 \<Rightarrow>
           Inr (Some q, Fold lev STORE sm mn sc msc (Some n) (Some K) (Some r) (Some q) (Some g'), w5))"
    unfolding next_strip.simps Let_def
    by (simp only: l0 if_False if_True sub su ms mu sum.case prod.case option.case simp_thms)
  show ?thesis
  proof (cases "sm = 0")
    case True
    have "w4 = w1\<lparr>heap := (heap w1)(brk w1 \<mapsto> \<lparr>level = lev, d = dm\<rparr>, r \<mapsto> sr\<lparr>d := ds\<rparr>),
               brk := Suc (brk w1), drawn := drawn w1 + c + 2 ^ nat lev + 1\<rparr>"
      using ne by (simp add: w4_def w3_def w2_def J_def K_def k_def fun_upd_twist)
    then show ?thesis
      using True body
      by (intro exI [of _ ds]) (simp add: ds_def dm_def k_def c_def K_def)
  next
    case False
    have h4: "heap w4 K = Some (J\<lparr>d := dm\<rparr>)" "heap w4 r = Some (sr\<lparr>d := ds\<rparr>)" "heap w4 q = Some sq"
      using q(1) ne by (simp_all add: w4_def w3_def w2_def K_def)
    have "\<exists>x. length x = length (d (sr\<lparr>d := ds\<rparr>)) \<and>
       recalc G (Some K) (Some r) (Some q) sc w4 =
         Inr (w4\<lparr>heap := (heap w4)(r \<mapsto> sr\<lparr>d := ds\<rparr>\<lparr>d := x\<rparr>),
                drawn := drawn w4 + 2 ^ nat (level (sr\<lparr>d := ds\<rparr>) - 1) + 1\<rparr>)"
      using ne lev r(2,3) q(2,3) n(3)
      by (intro recalc_shape [OF h4]) (simp_all add: K_def J_def ds_def dm_def)
    then obtain x where x: "length x = length (d sr)"
      and rc: "recalc G (Some K) (Some r) (Some q) sc w4 =
         Inr (w4\<lparr>heap := (heap w4)(r \<mapsto> sr\<lparr>d := x\<rparr>), drawn := drawn w4 + c + 1\<rparr>)"
      using r(2) by (auto simp: ds_def c_def)
    have "w4\<lparr>heap := (heap w4)(r \<mapsto> sr\<lparr>d := x\<rparr>), drawn := drawn w4 + c + 1\<rparr> =
        w1\<lparr>heap := (heap w1)(brk w1 \<mapsto> \<lparr>level = lev, d = dm\<rparr>, r \<mapsto> sr\<lparr>d := x\<rparr>),
               brk := Suc (brk w1), drawn := drawn w1 + c + 2 ^ nat lev + 1 + (c + 1)\<rparr>"
      using ne by (simp add: w4_def w3_def w2_def J_def K_def k_def fun_upd_twist)
    then show ?thesis
      using False body rc x
      by (intro exI [of _ x]) (simp add: dm_def ds_def k_def c_def K_def)
  qed
qed

section \<open>The invariant of a chain of folds\<close>

lemma strip_atE:
  assumes "strip_at w p L"
  obtains a s where "p = Some a" "heap w a = Some s" "a < brk w" "level s = L"
    "length (d s) = 2 ^ nat L + 1"
  using assms by (auto simp: strip_at_def split: option.splits)

lemma strip_atI:
  "heap w a = Some s \<Longrightarrow> a < brk w \<Longrightarrow> level s = L \<Longrightarrow> length (d s) = 2 ^ nat L + 1 \<Longrightarrow>
   strip_at w (Some a) L"
  by (simp add: strip_at_def)

lemma strip_at_frame:
  "strip_at w p L \<Longrightarrow> brk w \<le> brk w' \<Longrightarrow> (\<forall>a \<in> set_option p. heap w' a = heap w a) \<Longrightarrow>
   strip_at w' p L"
  by (auto simp: strip_at_def split: option.splits)

lemma owned_lt: "fold_inv w f \<Longrightarrow> a \<in> owned f \<Longrightarrow> a < brk w"
proof (induction f)
  case (Fold lev st sm mn sc msc nw wk rg ol nx)
  then show ?case
    by (auto simp: strip_at_def split: option.splits if_splits)
qed

lemma fold_inv_START:
  "lev \<noteq> 0 \<Longrightarrow>
   fold_inv w (Fold lev START sm mn sc msc nw wk rg ol nx) =
     (0 < lev \<and>
      (\<exists>g. nx = Some g \<and> flevel g = lev - 1 \<and> fold_inv w g \<and> strip_at w rg lev \<and>
           strip_at w ol lev \<and> rg \<noteq> ol \<and> (set_option rg \<union> set_option ol) \<inter> owned g = {}))"
  by (cases nx) simp_all

lemma fold_inv_STORE:
  "lev \<noteq> 0 \<Longrightarrow>
   fold_inv w (Fold lev STORE sm mn sc msc nw wk rg ol nx) =
     (0 < lev \<and>
      (\<exists>g. nx = Some g \<and> flevel g = lev - 1 \<and> fold_inv w g \<and> strip_at w rg lev \<and>
           strip_at w wk lev \<and> strip_at w nw (lev - 1) \<and> rg \<noteq> wk \<and>
           (set_option rg \<union> set_option wk \<union> set_option nw) \<inter> owned g = {}))"
  by (cases nx) (simp_all add: START_def STORE_def)

lemma fold_inv_state:
  "fold_inv w (Fold lev st sm mn sc msc nw wk rg ol nx) \<Longrightarrow> lev \<noteq> 0 \<Longrightarrow> st = START \<or> st = STORE"
  by (cases nx) (simp_all split: if_splits)

lemma owned_START:
  "lev \<noteq> 0 \<Longrightarrow>
   owned (Fold lev START sm mn sc msc nw wk rg ol (Some g)) =
     set_option rg \<union> set_option ol \<union> owned g"
  by simp

lemma owned_STORE:
  "lev \<noteq> 0 \<Longrightarrow>
   owned (Fold lev STORE sm mn sc msc nw wk rg ol (Some g)) =
     set_option rg \<union> set_option wk \<union> set_option nw \<union> owned g"
  by (simp add: START_def STORE_def)

lemma owned_0 [simp]: "owned (Fold 0 st sm mn sc msc nw wk rg ol nx) = {}"
  by simp

lemma fold_inv_0 [simp]: "fold_inv w (Fold 0 st sm mn sc msc nw wk rg ol nx)"
  by simp

declare fold_inv.simps [simp del] owned.simps [simp del]

lemma fold_inv_frame:
  "fold_inv w f \<Longrightarrow> brk w \<le> brk w' \<Longrightarrow> (\<forall>a \<in> owned f. heap w' a = heap w a) \<Longrightarrow>
   fold_inv w' f"
proof (induction f)
  case (Fold lev st sm mn sc msc nw wk rg ol nx)
  let ?F = "Fold lev st sm mn sc msc nw wk rg ol nx"
  show ?case
  proof (cases "lev = 0")
    case True
    then show ?thesis by simp
  next
    case False
    consider "st = START" | "st = STORE"
      using fold_inv_state [OF Fold.prems(1) False] by blast
    then show ?thesis
    proof cases
      case 1
      from Fold.prems(1) obtain g where g: "nx = Some g" "0 < lev" "flevel g = lev - 1"
        "fold_inv w g" "strip_at w rg lev" "strip_at w ol lev" "rg \<noteq> ol"
        "(set_option rg \<union> set_option ol) \<inter> owned g = {}"
        unfolding 1 fold_inv_START [OF False] by blast
      have own: "owned ?F = set_option rg \<union> set_option ol \<union> owned g"
        unfolding 1 g(1) by (rule owned_START [OF False])
      have "fold_inv w' g"
        using Fold.prems(2,3) g(1,4) own by (auto intro: Fold.IH [of g])
      moreover have "strip_at w' rg lev"
        using g(5) Fold.prems(2,3) own by (auto intro: strip_at_frame [of w])
      moreover have "strip_at w' ol lev"
        using g(6) Fold.prems(2,3) own by (auto intro: strip_at_frame [of w])
      ultimately show ?thesis
        unfolding 1 fold_inv_START [OF False] using g by blast
    next
      case 2
      from Fold.prems(1) obtain g where g: "nx = Some g" "0 < lev" "flevel g = lev - 1"
        "fold_inv w g" "strip_at w rg lev" "strip_at w wk lev" "strip_at w nw (lev - 1)" "rg \<noteq> wk"
        "(set_option rg \<union> set_option wk \<union> set_option nw) \<inter> owned g = {}"
        unfolding 2 fold_inv_STORE [OF False] by blast
      have own: "owned ?F = set_option rg \<union> set_option wk \<union> set_option nw \<union> owned g"
        unfolding 2 g(1) by (rule owned_STORE [OF False])
      have "fold_inv w' g"
        using Fold.prems(2,3) g(1,4) own by (auto intro: Fold.IH [of g])
      moreover have "strip_at w' rg lev"
        using g(5) Fold.prems(2,3) own by (auto intro: strip_at_frame [of w])
      moreover have "strip_at w' wk lev"
        using g(6) Fold.prems(2,3) own by (auto intro: strip_at_frame [of w])
      moreover have "strip_at w' nw (lev - 1)"
        using g(7) Fold.prems(2,3) own by (auto intro: strip_at_frame [of w])
      ultimately show ?thesis
        unfolding 2 fold_inv_STORE [OF False] using g by blast
    qed
  qed
qed

lemma fold_inv_calls: "fold_inv w f \<Longrightarrow> fold_inv (w\<lparr>calls := c\<rparr>) f"
  by (erule fold_inv_frame) simp_all

lemma flevel_nonneg: "fold_inv w f \<Longrightarrow> 0 \<le> flevel f"
  by (cases f) (auto simp: fold_inv.simps)

lemma pow2_pred: "1 \<le> (lev::int) \<Longrightarrow> (2::nat) ^ nat lev = 2 * 2 ^ nat (lev - 1)"
proof -
  assume "1 \<le> lev"
  then have "nat lev = Suc (nat (lev - 1))" by simp
  then show ?thesis by simp
qed

lemma start_step:
  assumes lev: "lev \<noteq> 0"
    and inv: "fold_inv w (Fold lev START sm mn sc msc nw wk rg ol (Some g))"
    and sub: "next_strip G g (w\<lparr>calls := lev # calls w\<rparr>) = Inr (Some n, g', w1)"
    and post: "call_post g (w\<lparr>calls := lev # calls w\<rparr>) n g' w1"
  shows "\<exists>r q sr sq sn dr.
     rg = Some r \<and> ol = Some q \<and> r \<noteq> q \<and> r < brk w \<and> q < brk w \<and> n < brk w1 \<and>
     r \<notin> owned g' \<and> q \<notin> owned g' \<and> n \<noteq> r \<and> n \<noteq> q \<and>
     heap w r = Some sr \<and> heap w1 r = Some sr \<and> level sr = lev \<and> length (d sr) = 2 ^ nat lev + 1 \<and>
     heap w q = Some sq \<and> heap w1 q = Some sq \<and> level sq = lev \<and> length (d sq) = 2 ^ nat lev + 1 \<and>
     heap w1 n = Some sn \<and> level sn = lev - 1 \<and> length (d sn) = 2 ^ nat (lev - 1) + 1 \<and>
     length dr = length (d sr) \<and> (sm = 0 \<longrightarrow> dr = side_data G sc (drawn w1) (d sr)) \<and>
     next_strip G (Fold lev START sm mn sc msc nw wk rg ol (Some g)) w =
       Inr (Some q,
            Fold lev STORE sm mn sc msc (Some n) (Some (brk w1)) (Some r) (Some q) (Some g'),
            w1\<lparr>heap := (heap w1)
                   (brk w1 \<mapsto> \<lparr>level = lev,
                              d = mid_data G sc msc (drawn w1 + 2 ^ nat (lev - 1)) (d sn)
                                    (side_data G sc (drawn w1) (d sr))\<rparr>,
                    r \<mapsto> sr\<lparr>d := dr\<rparr>),
               brk := Suc (brk w1),
               drawn := drawn w1 + 2 ^ nat (lev - 1) + 2 ^ nat lev + 1 +
                        (if sm = 0 then 0 else 2 ^ nat (lev - 1) + 1)\<rparr>)"
proof -
  let ?wl = "w\<lparr>calls := lev # calls w\<rparr>"
  from inv have pos: "0 < lev" and gl: "flevel g = lev - 1" and ginv: "fold_inv w g"
    and sr: "strip_at w rg lev" and sq: "strip_at w ol lev" and ne: "rg \<noteq> ol"
    and dis: "(set_option rg \<union> set_option ol) \<inter> owned g = {}"
    unfolding fold_inv_START [OF lev] by auto
  from sr obtain r s_r where r: "rg = Some r" "heap w r = Some s_r" "r < brk w" "level s_r = lev"
    "length (d s_r) = 2 ^ nat lev + 1"
    by (rule strip_atE)
  from sq obtain q s_q where q: "ol = Some q" "heap w q = Some s_q" "q < brk w" "level s_q = lev"
    "length (d s_q) = 2 ^ nat lev + 1"
    by (rule strip_atE)
  from post have p1: "fold_inv w1 g'" and p2: "strip_at w1 (Some n) (lev - 1)"
    and p3: "n \<notin> owned g'" and p4: "brk w \<le> brk w1"
    and p5: "\<And>a. a < brk w \<Longrightarrow> a \<notin> owned g \<Longrightarrow> heap w1 a = heap w a"
    and p6: "owned g' \<subseteq> owned g \<union> {brk w..<brk w1}"
    and p7: "n \<in> owned g \<union> {brk w..<brk w1}"
    unfolding call_post_def gl by simp_all
  from p2 obtain s_n where n: "heap w1 n = Some s_n" "n < brk w1" "level s_n = lev - 1"
    "length (d s_n) = 2 ^ nat (lev - 1) + 1"
    by (rule strip_atE) auto
  have rq: "r \<noteq> q" using ne r(1) q(1) by simp
  have rg: "r \<notin> owned g" "q \<notin> owned g" using dis r(1) q(1) by auto
  have r1: "heap w1 r = Some s_r" using p5 [OF r(3) rg(1)] r(2) by simp
  have q1: "heap w1 q = Some s_q" using p5 [OF q(3) rg(2)] q(2) by simp
  have rg': "r \<notin> owned g'" "q \<notin> owned g'" using p6 rg r(3) q(3) by auto
  have nr: "n \<noteq> r" using r1 r(4) n(1,3) by auto
  have nq: "n \<noteq> q" using q1 q(4) n(1,3) by auto
  have b: "r \<noteq> brk w1" "q \<noteq> brk w1" "n \<noteq> brk w1" using r(3) q(3) n(2) p4 by auto
  have l1: "1 \<le> lev" using pos by simp
  from start_body [OF l1 sub r1 r(4,5) q1 q(4,5) n(1,3,4) rq b, of sm sc mn msc nw wk]
  obtain dr where dr: "length dr = length (d s_r)" "sm = 0 \<longrightarrow> dr = side_data G sc (drawn w1) (d s_r)"
    "next_strip G (Fold lev START sm mn sc msc nw wk (Some r) (Some q) (Some g)) w =
       Inr (Some q,
            Fold lev STORE sm mn sc msc (Some n) (Some (brk w1)) (Some r) (Some q) (Some g'),
            w1\<lparr>heap := (heap w1)
                   (brk w1 \<mapsto> \<lparr>level = lev,
                              d = mid_data G sc msc (drawn w1 + 2 ^ nat (lev - 1)) (d s_n)
                                    (side_data G sc (drawn w1) (d s_r))\<rparr>,
                    r \<mapsto> s_r\<lparr>d := dr\<rparr>),
               brk := Suc (brk w1),
               drawn := drawn w1 + 2 ^ nat (lev - 1) + 2 ^ nat lev + 1 +
                        (if sm = 0 then 0 else 2 ^ nat (lev - 1) + 1)\<rparr>)"
    by blast
  show ?thesis
    apply (rule exI [of _ r], rule exI [of _ q], rule exI [of _ s_r], rule exI [of _ s_q],
        rule exI [of _ s_n], rule exI [of _ dr])
    using r q n rq rg' nr nq r1 q1 dr p4 by (simp del: fun_upd_apply)
qed

lemma next_strip_inv:
  "fold_inv w f \<Longrightarrow> \<exists>p f' w'. next_strip G f w = Inr (Some p, f', w') \<and> call_post f w p f' w'"
proof (induction f arbitrary: w)
  case (Fold lev st sm mn sc msc nw wk rg ol nx)
  let ?F = "Fold lev st sm mn sc msc nw wk rg ol nx"
  show ?case
  proof (cases "lev = 0")
    case True
    have "call_post ?F w (brk w) ?F
        (w\<lparr>heap := (heap w)(brk w \<mapsto> \<lparr>level = 0, d = [mn + sc * G (drawn w), mn + sc * G (Suc (drawn w))]\<rparr>),
            brk := Suc (brk w), drawn := drawn w + 2, calls := 0 # calls w\<rparr>)"
      unfolding call_post_def True by (simp add: strip_at_def)
    then show ?thesis
      unfolding True base_body by blast
  next
    case False
    consider "st = START" | "st = STORE"
      using fold_inv_state [OF Fold.prems False] by blast
    then show ?thesis
    proof cases
      case 1
      let ?wl = "w\<lparr>calls := lev # calls w\<rparr>"
      from Fold.prems obtain g where g: "nx = Some g" "fold_inv w g" "flevel g = lev - 1"
        unfolding 1 fold_inv_START [OF False] by blast
      have "fold_inv ?wl g" using g(2) by (rule fold_inv_calls)
      from Fold.IH [of g ?wl, OF _ this] g(1)
      obtain n g' w1 where sub: "next_strip G g ?wl = Inr (Some n, g', w1)"
        and post: "call_post g ?wl n g' w1"
        by auto
      have inv: "fold_inv w (Fold lev START sm mn sc msc nw wk rg ol (Some g))"
        using Fold.prems unfolding 1 g(1) .
      from start_step [OF False inv sub post]
      obtain r q sr sq sn dr where s:
        "rg = Some r" "ol = Some q" "r \<noteq> q" "r < brk w" "q < brk w" "n < brk w1"
        "r \<notin> owned g'" "q \<notin> owned g'" "n \<noteq> r" "n \<noteq> q"
        "heap w r = Some sr" "heap w1 r = Some sr" "level sr = lev" "length (d sr) = 2 ^ nat lev + 1"
        "heap w q = Some sq" "heap w1 q = Some sq" "level sq = lev" "length (d sq) = 2 ^ nat lev + 1"
        "heap w1 n = Some sn" "level sn = lev - 1" "length (d sn) = 2 ^ nat (lev - 1) + 1"
        "length dr = length (d sr)"
        and res: "next_strip G (Fold lev START sm mn sc msc nw wk rg ol (Some g)) w =
          Inr (Some q,
            Fold lev STORE sm mn sc msc (Some n) (Some (brk w1)) (Some r) (Some q) (Some g'),
            w1\<lparr>heap := (heap w1)
                   (brk w1 \<mapsto> \<lparr>level = lev,
                              d = mid_data G sc msc (drawn w1 + 2 ^ nat (lev - 1)) (d sn)
                                    (side_data G sc (drawn w1) (d sr))\<rparr>,
                    r \<mapsto> sr\<lparr>d := dr\<rparr>),
               brk := Suc (brk w1),
               drawn := drawn w1 + 2 ^ nat (lev - 1) + 2 ^ nat lev + 1 +
                        (if sm = 0 then 0 else 2 ^ nat (lev - 1) + 1)\<rparr>)"
        by blast
      define w' where "w' = w1\<lparr>heap := (heap w1)
                   (brk w1 \<mapsto> \<lparr>level = lev,
                              d = mid_data G sc msc (drawn w1 + 2 ^ nat (lev - 1)) (d sn)
                                    (side_data G sc (drawn w1) (d sr))\<rparr>,
                    r \<mapsto> sr\<lparr>d := dr\<rparr>),
               brk := Suc (brk w1),
               drawn := drawn w1 + 2 ^ nat (lev - 1) + 2 ^ nat lev + 1 +
                        (if sm = 0 then 0 else 2 ^ nat (lev - 1) + 1)\<rparr>"
      let ?F' = "Fold lev STORE sm mn sc msc (Some n) (Some (brk w1)) (Some r) (Some q) (Some g')"
      from post have p1: "fold_inv w1 g'" and p3: "n \<notin> owned g'" and p4: "brk w \<le> brk w1"
        and p5: "\<And>a. a < brk w \<Longrightarrow> a \<notin> owned g \<Longrightarrow> heap w1 a = heap w a"
        and p6: "owned g' \<subseteq> owned g \<union> {brk w..<brk w1}"
        and p7: "n \<in> owned g \<union> {brk w..<brk w1}"
        and p8: "flevel g' = flevel g"
        unfolding call_post_def by simp_all
      have lt: "\<And>a. a \<in> owned g' \<Longrightarrow> a < brk w1" using owned_lt [OF p1] .
      have hw': "heap w' = (heap w1)(brk w1 \<mapsto> \<lparr>level = lev,
                              d = mid_data G sc msc (drawn w1 + 2 ^ nat (lev - 1)) (d sn)
                                    (side_data G sc (drawn w1) (d sr))\<rparr>,
                    r \<mapsto> sr\<lparr>d := dr\<rparr>)"
        and bw': "brk w' = Suc (brk w1)"
        by (simp_all add: w'_def)
      have K: "brk w1 \<notin> owned g'" using lt by blast
      have rK: "r \<noteq> brk w1" "q \<noteq> brk w1" "n \<noteq> brk w1" using s(4,5,6) p4 by auto
      have i1: "fold_inv w' g'"
        using p1 K s(7) by (auto intro!: fold_inv_frame [of w1] simp: hw' bw')
      have pw: "(2::nat) ^ nat lev = 2 * 2 ^ nat (lev - 1)"
        using Fold.prems False unfolding 1 fold_inv_START [OF False] by (intro pow2_pred) simp
      have i2: "strip_at w' (Some r) lev"
        using s p4 by (simp add: strip_at_def hw' bw')
      have i3: "strip_at w' (Some (brk w1)) lev"
        using s rK p4 by (simp add: strip_at_def hw' bw')
      have i4: "strip_at w' (Some n) (lev - 1)"
        using s rK p4 by (simp add: strip_at_def hw' bw')
      have i5: "strip_at w' (Some q) lev"
        using s rK p4 by (simp add: strip_at_def hw' bw')
      have own': "owned ?F' = {r, brk w1, n} \<union> owned g'"
        unfolding owned_STORE [OF False] by auto
      have own: "owned ?F = {r, q} \<union> owned g"
        unfolding 1 g(1) s(1,2) owned_START [OF False] by auto
      have inv': "fold_inv w' ?F'"
        unfolding fold_inv_STORE [OF False]
        using Fold.prems False i1 i2 i3 i4 rK s(7) K p3 p8 g(3)
        unfolding 1 fold_inv_START [OF False] by auto
      have fr: "\<forall>a. a < brk w \<longrightarrow> a \<notin> owned ?F \<longrightarrow> heap w' a = heap w a"
        using p5 p4 unfolding own hw' by auto
      have "call_post ?F w q ?F' w'"
        unfolding call_post_def
        using inv' i5 fr s(3,8,10) rK p4 p6 p7 unfolding own own' bw' by auto
      then show ?thesis
        using res unfolding 1 g(1) w'_def by blast
    next
      case 2
      from Fold.prems obtain g where g: "nx = Some g" "0 < lev" "flevel g = lev - 1"
        "fold_inv w g" "strip_at w rg lev" "strip_at w wk lev" "strip_at w nw (lev - 1)" "rg \<noteq> wk"
        "(set_option rg \<union> set_option wk \<union> set_option nw) \<inter> owned g = {}"
        unfolding 2 fold_inv_STORE [OF False] by blast
      from g(5) obtain r sr where r: "rg = Some r" "heap w r = Some sr" "r < brk w" "level sr = lev"
        "length (d sr) = 2 ^ nat lev + 1"
        by (rule strip_atE)
      from g(6) obtain k sk where k: "wk = Some k" "heap w k = Some sk" "k < brk w" "level sk = lev"
        "length (d sk) = 2 ^ nat lev + 1"
        by (rule strip_atE)
      from g(7) obtain n sn where n: "nw = Some n" "heap w n = Some sn" "n < brk w"
        "level sn = lev - 1" "length (d sn) = 2 ^ nat (lev - 1) + 1"
        by (rule strip_atE)
      define w' where "w' = w\<lparr>heap := (heap w)(brk w \<mapsto> \<lparr>level = level sn + 1, d = doubled (d sn)\<rparr>, n := None),
            brk := Suc (brk w), calls := lev # calls w\<rparr>"
      let ?F' = "Fold lev START sm mn sc msc None None (Some (brk w)) wk nx"
      have nb: "n \<noteq> brk w" using n(3) by simp
      have l0: "0 \<le> level sn" using g(2) n(4) by simp
      have res: "next_strip G ?F w = Inr (Some r, ?F', w')"
        unfolding 2 n(1) r(1) w'_def
        using n(5) by (intro store_body [OF False n(2) nb l0]) (simp add: n(4))
      have hw': "heap w' = (heap w)(brk w \<mapsto> \<lparr>level = level sn + 1, d = doubled (d sn)\<rparr>, n := None)"
        and bw': "brk w' = Suc (brk w)"
        by (simp_all add: w'_def)
      have pw: "(2::nat) ^ nat lev = 2 * 2 ^ nat (lev - 1)"
        using g(2) by (intro pow2_pred) simp
      have lt: "\<And>a. a \<in> owned g \<Longrightarrow> a < brk w" using owned_lt [OF g(4)] .
      have nr: "n \<noteq> r" using r(2,4) n(2,4) by auto
      have nk: "n \<noteq> k" using k(2,4) n(2,4) by auto
      have rk: "r \<noteq> k" using g(8) r(1) k(1) by simp
      have dg: "r \<notin> owned g" "k \<notin> owned g" "n \<notin> owned g" using g(9) r(1) k(1) n(1) by auto
      have K: "brk w \<notin> owned g" using lt by blast
      have i1: "fold_inv w' g"
        using g(4) dg K by (auto intro!: fold_inv_frame [of w] simp: hw' bw')
      have i2: "strip_at w' (Some (brk w)) lev"
        using n(4,5) pw nb by (auto simp: strip_at_def hw' bw')
      have i3: "strip_at w' (Some k) lev"
        using k nk by (simp add: strip_at_def hw' bw')
      have i4: "strip_at w' (Some r) lev"
        using r nr by (simp add: strip_at_def hw' bw')
      have own': "owned ?F' = {brk w, k} \<union> owned g"
        unfolding g(1) k(1) owned_START [OF False] by auto
      have own: "owned ?F = {r, k, n} \<union> owned g"
        unfolding 2 g(1) r(1) k(1) n(1) owned_STORE [OF False] by auto
      have inv': "fold_inv w' ?F'"
        unfolding fold_inv_START [OF False]
        using g(1,2,3) i1 i2 i3 k(1,3) dg K by auto
      have fr: "\<forall>a. a < brk w \<longrightarrow> a \<notin> owned ?F \<longrightarrow> heap w' a = heap w a"
        unfolding own hw' by auto
      have "call_post ?F w r ?F' w'"
        unfolding call_post_def
        using inv' i4 fr rk dg r(3) K unfolding own own' bw' by auto
      then show ?thesis
        using res by blast
    qed
  qed
qed

declare flat.simps [simp del]

lemma all_eq_live: "heap w a = Some s \<Longrightarrow> all_eq w (Some a) m = (\<forall>j < length (d s). d s ! j = m)"
  by (simp add: all_eq_def strip_data_def)

lemma evens_eq_live:
  "heap w a = Some s \<Longrightarrow> evens_eq w (Some a) m = (\<forall>j < length (d s). even j \<longrightarrow> d s ! j = m)"
  by (simp add: evens_eq_def strip_data_def)

lemma all_eq_frame: "all_eq w p m \<Longrightarrow> (\<forall>a \<in> set_option p. heap w' a = heap w a) \<Longrightarrow> all_eq w' p m"
  by (cases p) (auto simp: all_eq_def strip_data_def)

lemma evens_eq_frame:
  "evens_eq w p m \<Longrightarrow> (\<forall>a \<in> set_option p. heap w' a = heap w a) \<Longrightarrow> evens_eq w' p m"
  by (cases p) (auto simp: evens_eq_def strip_data_def)

lemma all_eq_evens: "all_eq w p m \<Longrightarrow> evens_eq w p m"
  by (auto simp: all_eq_def evens_eq_def split: option.splits)

lemma flat_0: "flat m w (Fold 0 st sm mn sc msc nw wk rg ol nx) = (mn = m \<and> sm = 0)"
  by (simp add: flat.simps)

lemma flat_START:
  "lev \<noteq> 0 \<Longrightarrow>
   flat m w (Fold lev START sm mn sc msc nw wk rg ol (Some g)) =
     (mn = m \<and> sm = 0 \<and> flat m w g \<and> all_eq w ol m \<and> evens_eq w rg m)"
  by (simp add: flat.simps)

lemma flat_STORE:
  "lev \<noteq> 0 \<Longrightarrow>
   flat m w (Fold lev STORE sm mn sc msc nw wk rg ol (Some g)) =
     (mn = m \<and> sm = 0 \<and> flat m w g \<and> all_eq w rg m \<and> all_eq w wk m \<and> all_eq w nw m)"
  by (simp add: flat.simps START_def STORE_def)

lemma flat_frame:
  "flat m w f \<Longrightarrow> fold_inv w f \<Longrightarrow> (\<forall>a \<in> owned f. heap w' a = heap w a) \<Longrightarrow> flat m w' f"
proof (induction f)
  case (Fold lev st sm mn sc msc nw wk rg ol nx)
  let ?F = "Fold lev st sm mn sc msc nw wk rg ol nx"
  show ?case
  proof (cases "lev = 0")
    case True
    then show ?thesis using Fold.prems(1) by (simp add: flat_0)
  next
    case False
    consider "st = START" | "st = STORE"
      using fold_inv_state [OF Fold.prems(2) False] by blast
    then show ?thesis
    proof cases
      case 1
      from Fold.prems(2) obtain g where g: "nx = Some g" "fold_inv w g"
        unfolding 1 fold_inv_START [OF False] by blast
      have own: "owned ?F = set_option rg \<union> set_option ol \<union> owned g"
        unfolding 1 g(1) by (rule owned_START [OF False])
      from Fold.prems(1) have f: "mn = m" "sm = 0" "flat m w g" "all_eq w ol m" "evens_eq w rg m"
        unfolding 1 g(1) flat_START [OF False] by simp_all
      have "flat m w' g"
        using Fold.prems(3) f(3) g own by (auto intro: Fold.IH [of g])
      moreover have "all_eq w' ol m"
        using f(4) Fold.prems(3) own by (auto intro: all_eq_frame [of w])
      moreover have "evens_eq w' rg m"
        using f(5) Fold.prems(3) own by (auto intro: evens_eq_frame [of w])
      ultimately show ?thesis
        unfolding 1 g(1) flat_START [OF False] using f(1,2) by simp
    next
      case 2
      from Fold.prems(2) obtain g where g: "nx = Some g" "fold_inv w g"
        unfolding 2 fold_inv_STORE [OF False] by blast
      have own: "owned ?F = set_option rg \<union> set_option wk \<union> set_option nw \<union> owned g"
        unfolding 2 g(1) by (rule owned_STORE [OF False])
      from Fold.prems(1) have f: "mn = m" "sm = 0" "flat m w g" "all_eq w rg m" "all_eq w wk m"
        "all_eq w nw m"
        unfolding 2 g(1) flat_STORE [OF False] by simp_all
      have "flat m w' g"
        using Fold.prems(3) f(3) g own by (auto intro: Fold.IH [of g])
      moreover have "all_eq w' rg m"
        using f(4) Fold.prems(3) own by (auto intro: all_eq_frame [of w])
      moreover have "all_eq w' wk m"
        using f(5) Fold.prems(3) own by (auto intro: all_eq_frame [of w])
      moreover have "all_eq w' nw m"
        using f(6) Fold.prems(3) own by (auto intro: all_eq_frame [of w])
      ultimately show ?thesis
        unfolding 2 g(1) flat_STORE [OF False] using f(1,2) by simp
    qed
  qed
qed

lemma side_flat:
  assumes len: "length xs = 2 * c + 1" and ev: "\<forall>j < length xs. even j \<longrightarrow> xs ! j = m"
    and j: "j < length xs"
  shows "side_data (\<lambda>_. 0) sc k xs ! j = m"
proof (cases "odd j")
  case True
  then obtain i where i: "j = 2 * i + 1" by (auto elim: oddE)
  have "xs ! (j - 1) = m" "xs ! (j + 1) = m"
    using ev j len i by auto
  then show ?thesis
    using True j by (simp add: side_data_nth)
next
  case False
  then show ?thesis using ev j by (simp add: side_data_nth)
qed

lemma mid_flat:
  assumes ll: "length ls = c + 1" and lr: "length rs = 2 * c + 1"
    and al: "\<forall>j < length ls. ls ! j = m" and ar: "\<forall>j < length rs. rs ! j = m"
    and j: "j < length rs"
  shows "mid_data (\<lambda>_. 0) sc msc k ls rs ! j = m"
proof (cases "even j")
  case True
  then obtain i where i: "j = 2 * i" by (auto elim: evenE)
  have "ls ! (j div 2) = m" "rs ! j = m"
    using al ar j ll lr i by auto
  then show ?thesis
    using True j by (simp add: mid_data_nth)
next
  case False
  then obtain i where i: "j = 2 * i + 1" by (auto elim: oddE)
  have "ls ! (j div 2) = m" "ls ! Suc (j div 2) = m" "rs ! (j - 1) = m" "rs ! (j + 1) = m"
    using al ar j ll lr i by auto
  then show ?thesis
    using False j by (simp add: mid_data_nth)
qed

lemma doubled_flat:
  assumes al: "\<forall>j < length xs. xs ! j = m" and j: "j < length (doubled xs)" and e: "even j"
    and ne: "xs \<noteq> []"
  shows "doubled xs ! j = m"
proof -
  from e obtain i where i: "j = 2 * i" by (auto elim: evenE)
  have "i < length xs" using j i ne by (cases xs) auto
  then have "xs ! (j div 2) = m" using al i by auto
  then show ?thesis using j e by (simp add: doubled_nth)
qed

section \<open>Flat surfaces and new chains\<close>

lemma flat_calls: "flat m w f \<Longrightarrow> fold_inv w f \<Longrightarrow> flat m (w\<lparr>calls := c\<rparr>) f"
  by (erule flat_frame) simp_all

lemma next_strip_flat:
  "fold_inv w f \<Longrightarrow> flat m w f \<Longrightarrow> next_strip (\<lambda>_. 0) f w = Inr (Some p, f', w') \<Longrightarrow>
   flat m w' f' \<and> all_eq w' (Some p) m"
proof (induction f arbitrary: w p f' w')
  case (Fold lev st sm mn sc msc nw wk rg ol nx)
  let ?F = "Fold lev st sm mn sc msc nw wk rg ol nx"
  let ?G = "\<lambda>_::nat. 0::real"
  show ?case
  proof (cases "lev = 0")
    case True
    from Fold.prems(2) have "mn = m" "sm = 0" unfolding True flat_0 by simp_all
    then show ?thesis
      using Fold.prems(3) unfolding True base_body
      by (auto simp: flat_0 all_eq_def strip_data_def less_Suc_eq)
  next
    case False
    consider "st = START" | "st = STORE"
      using fold_inv_state [OF Fold.prems(1) False] by blast
    then show ?thesis
    proof cases
      case 1
      let ?wl = "w\<lparr>calls := lev # calls w\<rparr>"
      from Fold.prems(1) obtain g where g: "nx = Some g" "fold_inv w g" "flevel g = lev - 1"
        "0 < lev"
        unfolding 1 fold_inv_START [OF False] by blast
      from Fold.prems(2) have fl: "mn = m" "sm = 0" "flat m w g" "all_eq w ol m" "evens_eq w rg m"
        unfolding 1 g(1) flat_START [OF False] by simp_all
      have gi: "fold_inv ?wl g" using g(2) by (rule fold_inv_calls)
      have gf: "flat m ?wl g" using fl(3) g(2) by (rule flat_calls)
      from next_strip_inv [OF gi, of ?G]
      obtain n g' w1 where sub: "next_strip ?G g ?wl = Inr (Some n, g', w1)"
        and post: "call_post g ?wl n g' w1"
        by blast
      from Fold.IH [of g ?wl n g' w1, OF _ gi gf sub] g(1)
      have sf: "flat m w1 g'" "all_eq w1 (Some n) m" by auto
      have inv: "fold_inv w (Fold lev START sm mn sc msc nw wk rg ol (Some g))"
        using Fold.prems(1) unfolding 1 g(1) .
      from start_step [OF False inv sub post]
      obtain r q sr sq sn dr where s:
        "rg = Some r" "ol = Some q" "r \<noteq> q" "r < brk w" "q < brk w" "n < brk w1"
        "r \<notin> owned g'" "q \<notin> owned g'" "n \<noteq> r" "n \<noteq> q"
        "heap w r = Some sr" "heap w1 r = Some sr" "level sr = lev" "length (d sr) = 2 ^ nat lev + 1"
        "heap w q = Some sq" "heap w1 q = Some sq" "level sq = lev" "length (d sq) = 2 ^ nat lev + 1"
        "heap w1 n = Some sn" "level sn = lev - 1" "length (d sn) = 2 ^ nat (lev - 1) + 1"
        "length dr = length (d sr)" "sm = 0 \<longrightarrow> dr = side_data ?G sc (drawn w1) (d sr)"
        and res: "next_strip ?G (Fold lev START sm mn sc msc nw wk rg ol (Some g)) w =
          Inr (Some q,
            Fold lev STORE sm mn sc msc (Some n) (Some (brk w1)) (Some r) (Some q) (Some g'),
            w1\<lparr>heap := (heap w1)
                   (brk w1 \<mapsto> \<lparr>level = lev,
                              d = mid_data ?G sc msc (drawn w1 + 2 ^ nat (lev - 1)) (d sn)
                                    (side_data ?G sc (drawn w1) (d sr))\<rparr>,
                    r \<mapsto> sr\<lparr>d := dr\<rparr>),
               brk := Suc (brk w1),
               drawn := drawn w1 + 2 ^ nat (lev - 1) + 2 ^ nat lev + 1 +
                        (if sm = 0 then 0 else 2 ^ nat (lev - 1) + 1)\<rparr>)"
        by blast
      define dk where "dk = mid_data ?G sc msc (drawn w1 + 2 ^ nat (lev - 1)) (d sn)
                                    (side_data ?G sc (drawn w1) (d sr))"
      define w2 where "w2 = w1\<lparr>heap := (heap w1)(brk w1 \<mapsto> \<lparr>level = lev, d = dk\<rparr>, r \<mapsto> sr\<lparr>d := dr\<rparr>),
               brk := Suc (brk w1),
               drawn := drawn w1 + 2 ^ nat (lev - 1) + 2 ^ nat lev + 1 +
                        (if sm = 0 then 0 else 2 ^ nat (lev - 1) + 1)\<rparr>"
      from Fold.prems(3) res have eq: "p = q"
        "f' = Fold lev STORE sm mn sc msc (Some n) (Some (brk w1)) (Some r) (Some q) (Some g')"
        "w' = w2"
        unfolding 1 g(1) w2_def dk_def by auto
      from post have p1: "fold_inv w1 g'" and p4: "brk w \<le> brk w1"
        unfolding call_post_def by simp_all
      have K: "brk w1 \<notin> owned g'" using owned_lt [OF p1] by blast
      have rK: "r \<noteq> brk w1" "q \<noteq> brk w1" "n \<noteq> brk w1" using s(4,5,6) p4 by auto
      have h2: "heap w2 = (heap w1)(brk w1 \<mapsto> \<lparr>level = lev, d = dk\<rparr>, r \<mapsto> sr\<lparr>d := dr\<rparr>)"
        by (simp add: w2_def)
      have pw: "(2::nat) ^ nat lev = 2 * 2 ^ nat (lev - 1)"
        using g(4) by (intro pow2_pred) simp
      have dr: "dr = side_data ?G sc (drawn w1) (d sr)" using s(23) fl(2) by simp
      have ev: "\<forall>j < length (d sr). even j \<longrightarrow> d sr ! j = m"
        using fl(5) s(1,11) by (simp add: evens_eq_live)
      have lr: "length (d sr) = 2 * 2 ^ nat (lev - 1) + 1" using s(14) pw by simp
      have a_r: "\<forall>j < length dr. dr ! j = m"
        unfolding dr using side_flat [OF lr ev] by simp
      have a_n: "\<forall>j < length (d sn). d sn ! j = m"
        using sf(2) s(19) by (simp add: all_eq_live)
      have ldr: "length dr = 2 * 2 ^ nat (lev - 1) + 1" using s(22) lr by simp
      have a_k: "\<forall>j < length dk. dk ! j = m"
        unfolding dk_def dr [symmetric] using mid_flat [OF s(21) ldr a_n a_r] by simp
      have a_q: "\<forall>j < length (d sq). d sq ! j = m"
        using fl(4) s(2,15) by (simp add: all_eq_live)
      have c1: "flat m w2 g'"
        using sf(1) p1 K s(7) by (auto intro!: flat_frame [of m w1] simp: h2)
      have c2: "all_eq w2 (Some r) m"
        using a_r by (simp add: all_eq_def strip_data_def h2)
      have c3: "all_eq w2 (Some (brk w1)) m"
        using a_k rK by (simp add: all_eq_def strip_data_def h2)
      have c4: "all_eq w2 (Some n) m"
        using a_n rK s(9,19) by (simp add: all_eq_def strip_data_def h2)
      have c5: "all_eq w2 (Some q) m"
        using a_q rK s(3,16) by (simp add: all_eq_def strip_data_def h2)
      show ?thesis
        unfolding eq flat_STORE [OF False] using fl(1,2) c1 c2 c3 c4 c5 by simp
    next
      case 2
      from Fold.prems(1) obtain g where g: "nx = Some g" "0 < lev" "flevel g = lev - 1"
        "fold_inv w g" "strip_at w rg lev" "strip_at w wk lev" "strip_at w nw (lev - 1)" "rg \<noteq> wk"
        "(set_option rg \<union> set_option wk \<union> set_option nw) \<inter> owned g = {}"
        unfolding 2 fold_inv_STORE [OF False] by blast
      from Fold.prems(2) have fl: "mn = m" "sm = 0" "flat m w g" "all_eq w rg m" "all_eq w wk m"
        "all_eq w nw m"
        unfolding 2 g(1) flat_STORE [OF False] by simp_all
      from g(5) obtain r sr where r: "rg = Some r" "heap w r = Some sr" "r < brk w" "level sr = lev"
        "length (d sr) = 2 ^ nat lev + 1"
        by (rule strip_atE)
      from g(6) obtain k sk where k: "wk = Some k" "heap w k = Some sk" "k < brk w" "level sk = lev"
        "length (d sk) = 2 ^ nat lev + 1"
        by (rule strip_atE)
      from g(7) obtain n sn where n: "nw = Some n" "heap w n = Some sn" "n < brk w"
        "level sn = lev - 1" "length (d sn) = 2 ^ nat (lev - 1) + 1"
        by (rule strip_atE)
      define w2 where "w2 = w\<lparr>heap := (heap w)(brk w \<mapsto> \<lparr>level = level sn + 1, d = doubled (d sn)\<rparr>, n := None),
            brk := Suc (brk w), calls := lev # calls w\<rparr>"
      have nb: "n \<noteq> brk w" using n(3) by simp
      have l0: "0 \<le> level sn" using g(2) n(4) by simp
      have res: "next_strip ?G ?F w =
          Inr (Some r, Fold lev START sm mn sc msc None None (Some (brk w)) wk nx, w2)"
        unfolding 2 n(1) r(1) w2_def
        using n(5) by (intro store_body [OF False n(2) nb l0]) (simp add: n(4))
      from Fold.prems(3) res have eq: "p = r"
        "f' = Fold lev START sm mn sc msc None None (Some (brk w)) wk (Some g)" "w' = w2"
        unfolding g(1) by auto
      have h2: "heap w2 = (heap w)(brk w \<mapsto> \<lparr>level = level sn + 1, d = doubled (d sn)\<rparr>, n := None)"
        by (simp add: w2_def)
      have nr: "n \<noteq> r" using r(2,4) n(2,4) by auto
      have nk: "n \<noteq> k" using k(2,4) n(2,4) by auto
      have dg: "r \<notin> owned g" "k \<notin> owned g" "n \<notin> owned g" using g(9) r(1) k(1) n(1) by auto
      have K: "brk w \<notin> owned g" using owned_lt [OF g(4)] by blast
      have a_n: "\<forall>j < length (d sn). d sn ! j = m"
        using fl(6) n(1,2) by (simp add: all_eq_live)
      have ne: "d sn \<noteq> []" using n(5) by auto
      have c1: "flat m w2 g"
        using fl(3) g(4) dg K by (auto intro!: flat_frame [of m w] simp: h2)
      have c2: "all_eq w2 (Some k) m"
        using fl(5) k(1,3) nk by (auto intro!: all_eq_frame [of w] simp: h2)
      have c3: "evens_eq w2 (Some (brk w)) m"
        using doubled_flat [OF a_n _ _ ne] nb by (simp add: evens_eq_def strip_data_def h2)
      have c4: "all_eq w2 (Some r) m"
        using fl(4) r(1,3) nr by (auto intro!: all_eq_frame [of w] simp: h2)
      show ?thesis
        unfolding eq flat_START [OF False] using fl(1,2) c1 c2 c3 c4 k(1) by simp
    qed
  qed
qed

lemma make_fold_inv:
  "0 \<le> levels \<Longrightarrow>
   \<exists>f w'. make_fold levels sm len start mn fdim w = Inr (f, w') \<and> fold_inv w' f \<and>
     flevel f = levels \<and> smooth f = sm \<and> mean f = mn \<and> state f = START \<and>
     brk w \<le> brk w' \<and> (\<forall>a < brk w. heap w' a = heap w a) \<and> owned f \<subseteq> {brk w..<brk w'} \<and>
     calls w' = calls w \<and> drawn w' = drawn w \<and>
     (wf_world w \<longrightarrow> wf_world w') \<and> (heap_ok w \<longrightarrow> heap_ok w') \<and>
     (sm = 0 \<and> start = mn \<longrightarrow> flat mn w' f)"
proof (induction "nat levels" arbitrary: levels len w)
  case 0
  then have l: "levels = 0" by simp
  show ?case
    unfolding l make_fold.simps [of 0] by (simp add: START_def flat_0)
next
  case (Suc n)
  then have pos: "0 < levels" and l0: "levels \<noteq> 0" and le: "0 \<le> levels" by simp_all
  define N :: nat where "N = 2 ^ nat levels + 1"
  define S where "S = \<lparr>level = levels, d = replicate N start\<rparr>"
  define w1 where "w1 = w\<lparr>heap := (heap w)(brk w \<mapsto> S), brk := Suc (brk w)\<rparr>"
  define w2 where "w2 = w1\<lparr>heap := (heap w1)(brk w1 \<mapsto> S), brk := Suc (brk w1)\<rparr>"
  have s1: "set_strip levels start w = Inr (Some (brk w), w1)"
    using set_strip_eq [OF le] by (simp add: w1_def S_def N_def)
  have s2: "set_strip levels start w1 = Inr (Some (brk w1), w2)"
    using set_strip_eq [OF le] by (simp add: w2_def S_def N_def)
  have n: "n = nat (levels - 1)" "0 \<le> levels - 1" using Suc.hyps(2) by simp_all
  from Suc.hyps(1) [OF n, of "2 * len" w2]
  obtain g w3 where g: "make_fold (levels - 1) sm (2 * len) start mn fdim w2 = Inr (g, w3)"
    "fold_inv w3 g" "flevel g = levels - 1" "brk w2 \<le> brk w3" "\<forall>a < brk w2. heap w3 a = heap w2 a"
    "owned g \<subseteq> {brk w2..<brk w3}" "calls w3 = calls w2" "drawn w3 = drawn w2"
    "wf_world w2 \<longrightarrow> wf_world w3" "heap_ok w2 \<longrightarrow> heap_ok w3"
    "sm = 0 \<and> start = mn \<longrightarrow> flat mn w3 g"
    by blast
  define F where "F = Fold levels 0 sm mn (pow len (2 * fdim)) (pow (len * sqrt 2) (2 * fdim))
      None None (Some (brk w)) (Some (brk w1)) (Some g)"
  have res: "make_fold levels sm len start mn fdim w = Inr (F, w3)"
    unfolding make_fold.simps [of levels] Let_def F_def
    by (simp only: l0 s1 s2 g(1) sum.case prod.case if_True simp_thms)
  have b: "brk w1 = Suc (brk w)" "brk w2 = Suc (Suc (brk w))"
    by (simp_all add: w2_def w1_def)
  have h3: "heap w3 (brk w) = Some S" "heap w3 (Suc (brk w)) = Some S"
    using g(5) by (simp_all add: w2_def w1_def)
  have F0: "F = Fold levels START sm mn (pow len (2 * fdim)) (pow (len * sqrt 2) (2 * fdim))
      None None (Some (brk w)) (Some (Suc (brk w))) (Some g)"
    by (simp add: F_def START_def b)
  have sa: "strip_at w3 (Some (brk w)) levels" "strip_at w3 (Some (Suc (brk w))) levels"
    using h3 g(4) b by (simp_all add: strip_at_def S_def N_def)
  have dis: "brk w \<notin> owned g" "Suc (brk w) \<notin> owned g"
    using g(6) b by auto
  have inv: "fold_inv w3 F"
    unfolding F0 fold_inv_START [OF l0] using pos g(2,3) sa dis by simp
  have own: "owned F = {brk w, Suc (brk w)} \<union> owned g"
    unfolding F0 owned_START [OF l0] by auto
  have fr: "\<forall>a < brk w. heap w3 a = heap w a"
    using g(5) b by (simp add: w2_def w1_def)
  have "wf_world w \<Longrightarrow> wf_world w2"
    by (simp add: wf_world_def w2_def w1_def)
  then have wf: "wf_world w \<longrightarrow> wf_world w3"
    using g(9) by blast
  have "strip_ok S"
    using le by (simp add: strip_ok_def S_def N_def)
  then have "heap_ok w \<Longrightarrow> heap_ok w2"
    by (simp add: heap_ok_def w2_def w1_def)
  then have ok: "heap_ok w \<longrightarrow> heap_ok w3"
    using g(10) by blast
  have fl: "sm = 0 \<and> start = mn \<longrightarrow> flat mn w3 F"
    unfolding F0 flat_START [OF l0] using g(11) h3
    by (simp add: all_eq_def evens_eq_def strip_data_def S_def)
  have c: "calls w3 = calls w" "drawn w3 = drawn w" "brk w \<le> brk w3"
    using g(4,7,8) by (simp_all add: w2_def w1_def)
  have o: "owned F \<subseteq> {brk w..<brk w3}"
    unfolding own using g(4,6) b by auto
  have sel: "flevel F = levels" "smooth F = sm" "mean F = mn" "state F = START"
    by (simp_all add: F0)
  show ?case
    using res inv fr wf ok fl c o sel by blast
qed

section \<open>Runs of calls\<close>

lemma drive_add:
  "drive G (a + b) f w =
     (case drive G a f w of Inl e \<Rightarrow> Inl e | Inr (f', w') \<Rightarrow> drive G b f' w')"
  by (induction a arbitrary: f w) (auto split: sum.splits)

lemma drive_inv:
  "fold_inv w f \<Longrightarrow>
   \<exists>f' w'. drive G n f w = Inr (f', w') \<and> fold_inv w' f' \<and> flevel f' = flevel f"
proof (induction n arbitrary: f w)
  case 0
  then show ?case by simp
next
  case (Suc n)
  from next_strip_inv [OF Suc.prems, of G]
  obtain p f1 w1 where s: "next_strip G f w = Inr (Some p, f1, w1)" "call_post f w p f1 w1"
    by blast
  then have i: "fold_inv w1 f1" "flevel f1 = flevel f"
    by (simp_all add: call_post_def)
  from Suc.IH [OF i(1)] show ?case
    using s(1) i(2) by auto
qed

lemma drive_flat:
  "fold_inv w f \<Longrightarrow> flat m w f \<Longrightarrow> drive (\<lambda>_. 0) n f w = Inr (f', w') \<Longrightarrow> flat m w' f'"
proof (induction n arbitrary: f w)
  case 0
  then show ?case by simp
next
  case (Suc n)
  from next_strip_inv [OF Suc.prems(1), of "\<lambda>_. 0"]
  obtain p f1 w1 where s: "next_strip (\<lambda>_. 0) f w = Inr (Some p, f1, w1)" "call_post f w p f1 w1"
    by blast
  then have i: "fold_inv w1 f1"
    by (simp add: call_post_def)
  have "flat m w1 f1"
    using next_strip_flat [OF Suc.prems(1,2) s(1)] by simp
  from Suc.IH [OF i this] show ?case
    using s(1) Suc.prems(3) by simp
qed

lemma next_strip_calls:
  "fold_inv w f \<Longrightarrow> next_strip G f w = Inr (p, f', w') \<Longrightarrow>
   \<exists>ls. calls w' = ls @ calls w \<and> count_list ls (flevel f) = 1 \<and>
        (\<forall>x \<in> set ls. 0 \<le> x \<and> x \<le> flevel f) \<and>
        count_list ls (flevel f - 1) = (if flevel f \<noteq> 0 \<and> state f = START then 1 else 0) \<and>
        (flevel f \<noteq> 0 \<longrightarrow> state f' = (if state f = START then STORE else START))"
proof (induction f arbitrary: w p f' w')
  case (Fold lev st sm mn sc msc nw wk rg ol nx)
  let ?F = "Fold lev st sm mn sc msc nw wk rg ol nx"
  show ?case
  proof (cases "lev = 0")
    case True
    from Fold.prems(2) have "calls w' = [0] @ calls w"
      unfolding True base_body by auto
    then show ?thesis
      unfolding True by (intro exI [of _ "[0]"]) simp
  next
    case False
    consider "st = START" | "st = STORE"
      using fold_inv_state [OF Fold.prems(1) False] by blast
    then show ?thesis
    proof cases
      case 1
      let ?wl = "w\<lparr>calls := lev # calls w\<rparr>"
      from Fold.prems(1) obtain g where g: "nx = Some g" "fold_inv w g" "flevel g = lev - 1"
        "0 < lev"
        unfolding 1 fold_inv_START [OF False] by blast
      have gi: "fold_inv ?wl g" using g(2) by (rule fold_inv_calls)
      from next_strip_inv [OF gi, of G]
      obtain n g' w1 where sub: "next_strip G g ?wl = Inr (Some n, g', w1)"
        and post: "call_post g ?wl n g' w1"
        by blast
      from Fold.IH [of g ?wl "Some n" g' w1, OF _ gi sub] g(1)
      obtain ls where ls: "calls w1 = ls @ calls ?wl" "count_list ls (flevel g) = 1"
        "\<forall>x \<in> set ls. 0 \<le> x \<and> x \<le> flevel g"
        by auto
      have inv: "fold_inv w (Fold lev START sm mn sc msc nw wk rg ol (Some g))"
        using Fold.prems(1) unfolding 1 g(1) .
      have "\<exists>q F' w2. next_strip G (Fold lev START sm mn sc msc nw wk rg ol (Some g)) w =
          Inr (Some q, F', w2) \<and> calls w2 = calls w1 \<and> state F' = STORE"
        using start_step [OF False inv sub post]
        by (elim exE conjE) (intro exI conjI, assumption, simp_all)
      then obtain q F' w2 where
        res: "next_strip G (Fold lev START sm mn sc msc nw wk rg ol (Some g)) w = Inr (Some q, F', w2)"
        "calls w2 = calls w1" "state F' = STORE"
        by blast
      from Fold.prems(2) res have eq: "calls w' = calls w1" "state f' = STORE"
        unfolding 1 g(1) by auto
      have c: "calls w' = (ls @ [lev]) @ calls w"
        using eq(1) ls(1) by simp
      have nl: "lev \<notin> set ls" using ls(3) g(3) by auto
      have "count_list (ls @ [lev]) lev = 1"
        using nl by (simp add: count_list_0_iff)
      moreover have "count_list (ls @ [lev]) (lev - 1) = 1"
        using ls(2) g(3) by simp
      moreover have "\<forall>x \<in> set (ls @ [lev]). 0 \<le> x \<and> x \<le> lev"
        using ls(3) g(3,4) by auto
      ultimately show ?thesis
        using c eq(2) False unfolding 1 by (intro exI [of _ "ls @ [lev]"]) simp
    next
      case 2
      from Fold.prems(1) obtain g where g: "nx = Some g" "0 < lev"
        "strip_at w nw (lev - 1)"
        unfolding 2 fold_inv_STORE [OF False] by blast
      from g(3) obtain n sn where n: "nw = Some n" "heap w n = Some sn" "n < brk w"
        "level sn = lev - 1" "length (d sn) = 2 ^ nat (lev - 1) + 1"
        by (rule strip_atE)
      have nb: "n \<noteq> brk w" using n(3) by simp
      have l0: "0 \<le> level sn" using g(2) n(4) by simp
      have res: "next_strip G ?F w =
          Inr (rg, Fold lev START sm mn sc msc None None (Some (brk w)) wk nx,
            w\<lparr>heap := (heap w)(brk w \<mapsto> \<lparr>level = level sn + 1, d = doubled (d sn)\<rparr>, n := None),
              brk := Suc (brk w), calls := lev # calls w\<rparr>)"
        unfolding 2 n(1)
        using n(5) by (intro store_body [OF False n(2) nb l0]) (simp add: n(4))
      from Fold.prems(2) res have eq: "calls w' = [lev] @ calls w" "state f' = START"
        by auto
      have ne: "STORE \<noteq> START" by (simp add: START_def STORE_def)
      show ?thesis
        using eq ne g(2) unfolding 2 by (intro exI [of _ "[lev]"]) simp
    qed
  qed
qed

section \<open>Consequences for whole runs\<close>

lemma zero_noise_eq: "zero_noise = (\<lambda>_. 0)"
  by (rule ext) (simp add: zero_noise_def)

lemma all_eq_replicate:
  "all_eq w p m \<Longrightarrow> strip_at w p L \<Longrightarrow> strip_data w p = Some (replicate (2 ^ nat L + 1) m)"
proof -
  assume a: "all_eq w p m" and s: "strip_at w p L"
  from s obtain x sx where x: "p = Some x" "heap w x = Some sx" "length (d sx) = 2 ^ nat L + 1"
    by (rule strip_atE)
  have "\<forall>j < length (d sx). d sx ! j = m"
    using a x by (simp add: all_eq_live)
  then have e: "d sx = replicate (length (d sx)) m"
    by (intro nth_equalityI) simp_all
  have "d sx = replicate (2 ^ nat L + 1) m"
    using e by (simp only: x(3))
  then show ?thesis
    by (simp only: strip_data_def x(1,2) option.case option.map)
qed

lemma returned_flat:
  assumes inv: "fold_inv w f" and fl: "flat m w f"
  shows "returned zero_noise n f w = Inr (Some (replicate (2 ^ nat (flevel f) + 1) m))"
proof -
  from drive_inv [OF inv, of zero_noise n]
  obtain f1 w1 where d: "drive zero_noise n f w = Inr (f1, w1)" "fold_inv w1 f1" "flevel f1 = flevel f"
    by blast
  have f1: "flat m w1 f1"
    using drive_flat [OF inv fl] d(1) by (simp add: zero_noise_eq)
  from next_strip_inv [OF d(2), of zero_noise]
  obtain p f' w' where s: "next_strip zero_noise f1 w1 = Inr (Some p, f', w')"
    "call_post f1 w1 p f' w'"
    by blast
  have "all_eq w' (Some p) m"
    using next_strip_flat [OF d(2) f1] s(1) by (simp add: zero_noise_eq)
  moreover have "strip_at w' (Some p) (flevel f)"
    using s(2) d(3) by (simp add: call_post_def)
  ultimately have "strip_data w' (Some p) = Some (replicate (2 ^ nat (flevel f) + 1) m)"
    by (rule all_eq_replicate)
  then show ?thesis
    by (simp add: returned_def d(1) s(1))
qed

lemma generated_flat:
  assumes "0 \<le> levels"
  shows "generated zero_noise n levels 0 len m m fdim w = Inr (Some (replicate (2 ^ nat levels + 1) m))"
proof -
  from make_fold_inv [OF assms, of 0 len m m fdim w]
  obtain f w1 where f: "make_fold levels 0 len m m fdim w = Inr (f, w1)" "fold_inv w1 f"
    "flevel f = levels" "flat m w1 f"
    by blast
  show ?thesis
    using returned_flat [OF f(2,4), of n] by (simp add: generated_def f(1,3))
qed

lemma fold_inv_next:
  "fold_inv w f \<Longrightarrow> flevel f \<noteq> 0 \<Longrightarrow>
   (state f = START \<or> state f = STORE) \<and> (\<exists>g. next_fold f = Some g \<and> flevel g = flevel f - 1)"
  by (cases f) (auto simp: fold_inv.simps split: option.splits if_splits)

lemma one_call:
  assumes inv: "fold_inv w f" and L: "flevel f \<noteq> 0"
  shows "\<exists>p f1 w1. next_strip G f w = Inr (p, f1, w1) \<and> fold_inv w1 f1 \<and> flevel f1 = flevel f \<and>
     state f1 = (if state f = START then STORE else START) \<and>
     count_list (calls w1) (flevel f - 1) =
       count_list (calls w) (flevel f - 1) + (if state f = START then 1 else 0)"
proof -
  from next_strip_inv [OF inv, of G]
  obtain p f1 w1 where s: "next_strip G f w = Inr (Some p, f1, w1)" "call_post f w p f1 w1"
    by blast
  from next_strip_calls [OF inv s(1)] L
  obtain ls where ls: "calls w1 = ls @ calls w"
    "count_list ls (flevel f - 1) = (if state f = START then 1 else 0)"
    "state f1 = (if state f = START then STORE else START)"
    by auto
  have "count_list (calls w1) (flevel f - 1) =
      count_list (calls w) (flevel f - 1) + (if state f = START then 1 else 0)"
    unfolding ls(1) count_list_append ls(2) by simp
  then show ?thesis
    using s ls(3) by (auto simp: call_post_def)
qed

lemma two_calls:
  assumes inv: "fold_inv w f" and L: "flevel f \<noteq> 0"
  shows "\<exists>f2 w2. drive G 2 f w = Inr (f2, w2) \<and> fold_inv w2 f2 \<and> flevel f2 = flevel f \<and>
     count_list (calls w2) (flevel f - 1) = count_list (calls w) (flevel f - 1) + 1"
proof -
  from one_call [OF inv L, of G]
  obtain p f1 w1 where a: "next_strip G f w = Inr (p, f1, w1)" "fold_inv w1 f1"
    "flevel f1 = flevel f" "state f1 = (if state f = START then STORE else START)"
    "count_list (calls w1) (flevel f - 1) =
       count_list (calls w) (flevel f - 1) + (if state f = START then 1 else 0)"
    by blast
  have L1: "flevel f1 \<noteq> 0" using L a(3) by simp
  from one_call [OF a(2) L1, of G]
  obtain q f2 w2 where b: "next_strip G f1 w1 = Inr (q, f2, w2)" "fold_inv w2 f2"
    "flevel f2 = flevel f1"
    "count_list (calls w2) (flevel f1 - 1) =
       count_list (calls w1) (flevel f1 - 1) + (if state f1 = START then 1 else 0)"
    by blast
  have ne: "STORE \<noteq> START" by (simp add: START_def STORE_def)
  have "count_list (calls w2) (flevel f - 1) = count_list (calls w) (flevel f - 1) + 1"
    using a(4,5) b(4) ne unfolding a(3) by (cases "state f = START") simp_all
  moreover have "drive G 2 f w = Inr (f2, w2)"
    by (simp add: numeral_2_eq_2 a(1) b(1))
  ultimately show ?thesis
    using b(2,3) a(3) by simp
qed

lemma even_calls:
  assumes inv: "fold_inv w f" and L: "flevel f \<noteq> 0"
  shows "\<exists>f' w'. drive G (2 * k) f w = Inr (f', w') \<and> fold_inv w' f' \<and> flevel f' = flevel f \<and>
     count_list (calls w') (flevel f - 1) = count_list (calls w) (flevel f - 1) + k"
  using inv L
proof (induction k arbitrary: f w)
  case 0
  then show ?case by simp
next
  case (Suc k)
  from two_calls [OF Suc.prems, of G]
  obtain f2 w2 where a: "drive G 2 f w = Inr (f2, w2)" "fold_inv w2 f2" "flevel f2 = flevel f"
    "count_list (calls w2) (flevel f - 1) = count_list (calls w) (flevel f - 1) + 1"
    by blast
  have L2: "flevel f2 \<noteq> 0" using Suc.prems(2) a(3) by simp
  from Suc.IH [OF a(2) L2]
  obtain f' w' where b: "drive G (2 * k) f2 w2 = Inr (f', w')" "fold_inv w' f'"
    "flevel f' = flevel f2"
    "count_list (calls w') (flevel f2 - 1) = count_list (calls w2) (flevel f2 - 1) + k"
    by blast
  have "drive G (2 * Suc k) f w = drive G (2 + 2 * k) f w" by simp
  also have "\<dots> = Inr (f', w')"
    unfolding drive_add a(1) using b(1) by simp
  finally show ?case
    using a(3,4) b(2,3,4) by simp
qed

section \<open>The size invariant of the store\<close>

lemma wr_ok: "wr p i v w = Inr w' \<Longrightarrow> heap_ok w \<Longrightarrow> heap_ok w'"
  by (auto simp: wr_def heap_ok_def strip_ok_def split: option.splits if_splits)

lemma gaussian_ok: "gaussian G w = (g, w') \<Longrightarrow> heap_ok w \<Longrightarrow> heap_ok w'"
  by (auto simp: gaussian_def heap_ok_def)

lemma make_strip_ok: "make_strip lev w = Inr (p, w') \<Longrightarrow> heap_ok w \<Longrightarrow> heap_ok w'"
  by (auto simp: make_strip_def shl1_def heap_ok_def strip_ok_def Let_def nat_add_distrib
      nat_power_eq split: if_splits)

lemma free_strip_ok: "free_strip p w = Inr w' \<Longrightarrow> heap_ok w \<Longrightarrow> heap_ok w'"
  by (auto simp: free_strip_def heap_ok_def split: option.splits if_splits)

lemma heap_ok_drawn [simp]: "heap_ok (w\<lparr>drawn := x\<rparr>) = heap_ok w"
  by (simp add: heap_ok_def)

lemma heap_ok_calls [simp]: "heap_ok (w\<lparr>calls := x\<rparr>) = heap_ok w"
  by (simp add: heap_ok_def)

lemma set_loop_ok: "set_loop s v n h w = Inr w' \<Longrightarrow> heap_ok w \<Longrightarrow> heap_ok w'"
proof (induction n arbitrary: h w)
  case 0
  then show ?case by simp
next
  case (Suc n)
  from Suc.prems(1) obtain w1 where a: "wr s h v w = Inr w1" "set_loop s v n (h + 1) w1 = Inr w'"
    by (auto split: sum.splits)
  show ?case
    using Suc.IH [OF a(2)] wr_ok [OF a(1) Suc.prems(2)] by simp
qed

lemma double_loop_ok: "double_loop s p n a b w = Inr (a', b', w') \<Longrightarrow> heap_ok w \<Longrightarrow> heap_ok w'"
proof (induction n arbitrary: a b w)
  case 0
  then show ?case by simp
next
  case (Suc n)
  from Suc.prems(1) obtain x w1 w2 where s: "wr p b x w = Inr w1" "wr p (b + 1) 0 w1 = Inr w2"
    "double_loop s p n (a + 1) (b + 2) w2 = Inr (a', b', w')"
    by (auto split: sum.splits)
  show ?case
    using Suc.IH [OF s(3)] wr_ok [OF s(2)] wr_ok [OF s(1) Suc.prems(2)] by simp
qed

lemma side_loop_ok: "side_loop G s sc n p w = Inr w' \<Longrightarrow> heap_ok w \<Longrightarrow> heap_ok w'"
proof (induction n arbitrary: p w)
  case 0
  then show ?case by simp
next
  case (Suc n)
  from Suc.prems(1) obtain v w2 where s: "wr s (p + 1) v (w\<lparr>drawn := Suc (drawn w)\<rparr>) = Inr w2"
    "side_loop G s sc n (p + 2) w2 = Inr w'"
    by (auto simp: gaussian_def split: sum.splits)
  show ?case
    using Suc.IH [OF s(2)] wr_ok [OF s(1)] Suc.prems(2) by simp
qed

lemma mid_loop_ok:
  "mid_loop G left nw right sc msc k l n r w = Inr (l', n', r', w') \<Longrightarrow> heap_ok w \<Longrightarrow> heap_ok w'"
proof (induction k arbitrary: l n r w)
  case 0
  then show ?case by simp
next
  case (Suc k)
  from Suc.prems(1) obtain v1 w2 v2 w4 where
    s: "wr nw n v1 (w\<lparr>drawn := Suc (drawn w)\<rparr>) = Inr w2"
    "wr nw (n + 1) v2 (w2\<lparr>drawn := Suc (drawn w2)\<rparr>) = Inr w4"
    "mid_loop G left nw right sc msc k (l + 1) (n + 2) (r + 2) w4 = Inr (l', n', r', w')"
    by (auto simp: gaussian_def split: sum.splits)
  have "heap_ok w2" using wr_ok [OF s(1)] Suc.prems(2) by simp
  then have "heap_ok w4" using wr_ok [OF s(2)] by simp
  then show ?case
    using Suc.IH [OF s(3)] by simp
qed

lemma recalc_loop_ok:
  "recalc_loop G left rgn right sc k l g r w = Inr (l', g', r', w') \<Longrightarrow> heap_ok w \<Longrightarrow> heap_ok w'"
proof (induction k arbitrary: l g r w)
  case 0
  then show ?case by simp
next
  case (Suc k)
  from Suc.prems(1) obtain v w2 where
    s: "wr rgn g v (w\<lparr>drawn := Suc (drawn w)\<rparr>) = Inr w2"
    "recalc_loop G left rgn right sc k (l + 2) (g + 2) (r + 2) w2 = Inr (l', g', r', w')"
    by (auto simp: gaussian_def split: sum.splits)
  have "heap_ok w2" using wr_ok [OF s(1)] Suc.prems(2) by simp
  then show ?case
    using Suc.IH [OF s(2)] by simp
qed

lemma set_strip_ok:
  assumes "set_strip lev v w = Inr (p, w')" and "heap_ok w"
  shows "heap_ok w'"
proof -
  from assms(1) obtain w1 n where s: "make_strip lev w = Inr (p, w1)" "set_loop p v n 0 w1 = Inr w'"
    by (auto simp: set_strip_def split: sum.splits)
  show ?thesis
    using set_loop_ok [OF s(2)] make_strip_ok [OF s(1) assms(2)] by simp
qed

lemma double_strip_ok:
  assumes "double_strip s w = Inr (p, w')" and "heap_ok w"
  shows "heap_ok w'"
proof -
  from assms(1) obtain lev w1 n a b w2 x where s: "make_strip lev w = Inr (p, w1)"
    "double_loop s p n 0 0 w1 = Inr (a, b, w2)" "wr p b x w2 = Inr w'"
    by (auto simp: double_strip_def split: sum.splits)
  show ?thesis
    using wr_ok [OF s(3)] double_loop_ok [OF s(2)] make_strip_ok [OF s(1) assms(2)] by simp
qed

lemma side_update_ok: "side_update G s sc w = Inr w' \<Longrightarrow> heap_ok w \<Longrightarrow> heap_ok w'"
  by (auto simp: side_update_def split: sum.splits intro: side_loop_ok)

lemma mid_update_ok:
  assumes "mid_update G left nw right sc msc w = Inr w'" and "heap_ok w"
  shows "heap_ok w'"
proof -
  from assms(1) obtain c l n r w1 v where s:
    "mid_loop G left nw right sc msc c 0 0 0 w = Inr (l, n, r, w1)"
    "wr nw n v (w1\<lparr>drawn := Suc (drawn w1)\<rparr>) = Inr w'"
    by (auto simp: mid_update_def gaussian_def split: sum.splits if_splits)
  have "heap_ok w1" using mid_loop_ok [OF s(1) assms(2)] .
  then show ?thesis
    using wr_ok [OF s(2)] by simp
qed

lemma recalc_ok:
  assumes "recalc G left rgn right sc w = Inr w'" and "heap_ok w"
  shows "heap_ok w'"
proof -
  from assms(1) obtain v0 w2 c l g r w3 v1 where s:
    "wr rgn 0 v0 (w\<lparr>drawn := Suc (drawn w)\<rparr>) = Inr w2"
    "recalc_loop G left rgn right sc c 2 2 2 w2 = Inr (l, g, r, w3)"
    "wr rgn g v1 (w3\<lparr>drawn := Suc (drawn w3)\<rparr>) = Inr w'"
    by (auto simp: recalc_def gaussian_def split: sum.splits if_splits)
  have "heap_ok w2" using wr_ok [OF s(1)] assms(2) by simp
  then have "heap_ok w3" using recalc_loop_ok [OF s(2)] by simp
  then show ?thesis
    using wr_ok [OF s(3)] by simp
qed

lemma next_strip_ok: "next_strip G f w = Inr (p, f', w') \<Longrightarrow> heap_ok w \<Longrightarrow> heap_ok w'"
proof (induction f arbitrary: w p f' w')
  case (Fold lev st sm mn sc msc nw wk rg ol nx)
  let ?wl = "w\<lparr>calls := lev # calls w\<rparr>"
  have wl: "heap_ok ?wl" using Fold.prems(2) by simp
  consider "lev = 0" | "lev \<noteq> 0" "st = START" | "lev \<noteq> 0" "st \<noteq> START" "st = STORE"
    | "lev \<noteq> 0" "st \<noteq> START" "st \<noteq> STORE"
    by blast
  then show ?case
  proof cases
    case 1
    from Fold.prems(1) obtain r w1 v0 w3 v1 where s: "make_strip 0 ?wl = Inr (r, w1)"
      "wr r 0 v0 (w1\<lparr>drawn := Suc (drawn w1)\<rparr>) = Inr w3"
      "wr r 1 v1 (w3\<lparr>drawn := Suc (drawn w3)\<rparr>) = Inr w'"
      unfolding 1 next_strip.simps Let_def
      by (auto simp: gaussian_def split: sum.splits)
    have "heap_ok w1" using make_strip_ok [OF s(1) wl] .
    then have "heap_ok w3" using wr_ok [OF s(2)] by simp
    then show ?thesis using wr_ok [OF s(3)] by simp
  next
    case 2
    from Fold.prems(1) obtain g n g' w1 w2 k w3 w4 where s: "nx = Some g"
      "next_strip G g ?wl = Inr (n, g', w1)" "side_update G rg sc w1 = Inr w2"
      "make_strip lev w2 = Inr (k, w3)" "mid_update G n k rg sc msc w3 = Inr w4"
      "(if sm \<noteq> 0 then recalc G k rg ol sc w4 else Inr w4) = Inr w'"
      unfolding next_strip.simps Let_def
      by (auto simp: 2 split: sum.splits option.splits)
    have "heap_ok w1" using Fold.IH [of g ?wl n g' w1] s(1,2) wl by simp
    then have "heap_ok w2" using side_update_ok [OF s(3)] by simp
    then have "heap_ok w3" using make_strip_ok [OF s(4)] by simp
    then have "heap_ok w4" using mid_update_ok [OF s(5)] by simp
    then show ?thesis
      using s(6) recalc_ok [of G k rg ol sc w4 w'] by (cases "sm = 0") simp_all
  next
    case 3
    from Fold.prems(1) obtain r w1 where s: "double_strip nw ?wl = Inr (r, w1)"
      "free_strip nw w1 = Inr w'"
      unfolding next_strip.simps Let_def
      by (auto simp: 3 START_def STORE_def split: sum.splits)
    have "heap_ok w1" using double_strip_ok [OF s(1) wl] .
    then show ?thesis using free_strip_ok [OF s(2)] by simp
  next
    case 4
    then show ?thesis
      using Fold.prems(1) unfolding next_strip.simps Let_def by simp
  qed
qed

lemma drive_ok: "drive G n f w = Inr (f', w') \<Longrightarrow> heap_ok w \<Longrightarrow> heap_ok w'"
proof (induction n arbitrary: f w)
  case 0
  then show ?case by simp
next
  case (Suc n)
  from Suc.prems(1) obtain p f1 w1 where s: "next_strip G f w = Inr (p, f1, w1)"
    "drive G n f1 w1 = Inr (f', w')"
    by (auto split: sum.splits)
  show ?case
    using Suc.IH [OF s(2)] next_strip_ok [OF s(1) Suc.prems(2)] by simp
qed

lemma make_fold_ok:
  assumes "make_fold levels sm len start mn fdim w = Inr (f, w')" and "heap_ok w"
  shows "heap_ok w'"
proof (cases "0 \<le> levels")
  case True
  from make_fold_inv [OF True, of sm len start mn fdim w] assms show ?thesis
    by auto
next
  case False
  then have "set_strip levels start w = Inl Negative_shift"
    by (simp add: set_strip_def make_strip_def shl1_def)
  then show ?thesis
    using assms(1) False unfolding make_fold.simps [of levels] Let_def by simp
qed

section \<open>The kernels of the START phase\<close>

lemma start_kernels:
  assumes lev: "1 \<le> lev"
    and r: "heap w1 r = Some sr" "level sr = lev" "length (d sr) = 2 ^ nat lev + 1"
    and q: "heap w1 q = Some sq" "level sq = lev" "length (d sq) = 2 ^ nat lev + 1"
    and n: "heap w1 n = Some sn" "level sn = lev - 1" "length (d sn) = 2 ^ nat (lev - 1) + 1"
    and ne: "r \<noteq> q" "r \<noteq> brk w1" "q \<noteq> brk w1" "n \<noteq> brk w1"
  shows "\<exists>w2 w3 w4 w5.
     get_level (Some r) w1 = Inr lev \<and> side_update G (Some r) sc w1 = Inr w2 \<and>
     make_strip lev w2 = Inr (Some (brk w1), w3) \<and>
     get_level (Some n) w3 = Inr (lev - 1) \<and> get_level (Some (brk w1)) w3 = Inr lev \<and>
     get_level (Some r) w3 = Inr lev \<and>
     mid_update G (Some n) (Some (brk w1)) (Some r) sc msc w3 = Inr w4 \<and>
     get_level (Some (brk w1)) w4 = Inr lev \<and> get_level (Some r) w4 = Inr lev \<and>
     get_level (Some q) w4 = Inr lev \<and>
     recalc G (Some (brk w1)) (Some r) (Some q) sc w4 = Inr w5"
proof -
  define c :: nat where "c = 2 ^ nat (lev - 1)"
  define k where "k = drawn w1"
  define K where "K = brk w1"
  define ds where "ds = side_data G sc k (d sr)"
  define w2 where "w2 = w1\<lparr>heap := (heap w1)(r \<mapsto> sr\<lparr>d := ds\<rparr>), drawn := k + c\<rparr>"
  define J where "J = \<lparr>level = lev, d = map (junk w2 K) [0..<2 ^ nat lev + 1]\<rparr>"
  define w3 where "w3 = w2\<lparr>heap := (heap w2)(K \<mapsto> J), brk := Suc K\<rparr>"
  define dm where "dm = mid_data G sc msc (k + c) (d sn) ds"
  define w4 where "w4 = w3\<lparr>heap := (heap w3)(K \<mapsto> J\<lparr>d := dm\<rparr>), drawn := k + c + 2 ^ nat lev + 1\<rparr>"
  have nr: "n \<noteq> r" using r(1,2) n(1,2) by auto
  have g1: "get_level (Some r) w1 = Inr lev"
    using get_level_live [OF r(1)] r(2) by simp
  have su: "side_update G (Some r) sc w1 = Inr w2"
    using side_update_eq [OF r(1), of G sc] lev r(2,3) by (simp add: w2_def ds_def k_def c_def)
  have ms: "make_strip lev w2 = Inr (Some K, w3)"
    using lev make_strip_eq [of lev w2] by (simp add: w3_def J_def) (simp add: w2_def K_def)
  have h3: "heap w3 n = Some sn" "heap w3 K = Some J" "heap w3 r = Some (sr\<lparr>d := ds\<rparr>)"
    using n(1) nr ne by (simp_all add: w3_def w2_def K_def)
  have g3: "get_level (Some n) w3 = Inr (lev - 1)" "get_level (Some K) w3 = Inr lev"
    "get_level (Some r) w3 = Inr lev"
    using get_level_live [OF h3(1)] get_level_live [OF h3(2)] get_level_live [OF h3(3)] n(2) r(2)
    by (simp_all add: J_def)
  have mu: "mid_update G (Some n) (Some K) (Some r) sc msc w3 = Inr w4"
    using mid_update_eq [OF h3, of G sc msc] ne lev r(2,3) n(2,3)
    by (simp add: K_def J_def ds_def) (simp add: w4_def dm_def w3_def w2_def J_def ds_def K_def)
  have h4: "heap w4 K = Some (J\<lparr>d := dm\<rparr>)" "heap w4 r = Some (sr\<lparr>d := ds\<rparr>)" "heap w4 q = Some sq"
    using q(1) ne by (simp_all add: w4_def w3_def w2_def K_def)
  have g4: "get_level (Some K) w4 = Inr lev" "get_level (Some r) w4 = Inr lev"
    "get_level (Some q) w4 = Inr lev"
    using get_level_live [OF h4(1)] get_level_live [OF h4(2)] get_level_live [OF h4(3)] q(2) r(2)
    by (simp_all add: J_def)
  have "\<exists>x. length x = length (d (sr\<lparr>d := ds\<rparr>)) \<and>
       recalc G (Some K) (Some r) (Some q) sc w4 =
         Inr (w4\<lparr>heap := (heap w4)(r \<mapsto> sr\<lparr>d := ds\<rparr>\<lparr>d := x\<rparr>),
                drawn := drawn w4 + 2 ^ nat (level (sr\<lparr>d := ds\<rparr>) - 1) + 1\<rparr>)"
    using ne lev r(2,3) q(2,3) n(3)
    by (intro recalc_shape [OF h4]) (simp_all add: K_def J_def ds_def dm_def)
  then obtain w5 where rc: "recalc G (Some K) (Some r) (Some q) sc w4 = Inr w5"
    by blast
  show ?thesis
    using g1 su ms g3 mu g4 rc unfolding K_def by blast
qed

lemma start_phase_kernels:
  assumes inv: "fold_inv w f" and L: "flevel f \<noteq> 0" and st: "state f = START"
  shows "\<exists>g n g' w1 w2 k w3 w4 w5.
     next_fold f = Some g \<and> fold_inv (w\<lparr>calls := flevel f # calls w\<rparr>) g \<and>
     next_strip G g (w\<lparr>calls := flevel f # calls w\<rparr>) = Inr (n, g', w1) \<and>
     1 \<le> flevel f \<and> get_level (regen f) w1 = Inr (flevel f) \<and>
     side_update G (regen f) (scale f) w1 = Inr w2 \<and>
     make_strip (flevel f) w2 = Inr (k, w3) \<and>
     get_level n w3 = Inr (flevel f - 1) \<and> get_level k w3 = Inr (flevel f) \<and>
     get_level (regen f) w3 = Inr (flevel f) \<and>
     mid_update G n k (regen f) (scale f) (midscale f) w3 = Inr w4 \<and>
     get_level k w4 = Inr (flevel f) \<and> get_level (regen f) w4 = Inr (flevel f) \<and>
     get_level (old f) w4 = Inr (flevel f) \<and>
     recalc G k (regen f) (old f) (scale f) w4 = Inr w5"
proof -
  obtain lev sm mn sc msc nw wk rg ol nx where f: "f = Fold lev START sm mn sc msc nw wk rg ol nx"
    using st by (cases f) auto
  have l0: "lev \<noteq> 0" using L f by simp
  let ?wl = "w\<lparr>calls := lev # calls w\<rparr>"
  from inv obtain g where g: "nx = Some g" "fold_inv w g" "0 < lev"
    unfolding f fold_inv_START [OF l0] by blast
  have gi: "fold_inv ?wl g" using g(2) by (rule fold_inv_calls)
  from next_strip_inv [OF gi, of G]
  obtain n g' w1 where sub: "next_strip G g ?wl = Inr (Some n, g', w1)"
    and post: "call_post g ?wl n g' w1"
    by blast
  have inv': "fold_inv w (Fold lev START sm mn sc msc nw wk rg ol (Some g))"
    using inv unfolding f g(1) .
  from start_step [OF l0 inv' sub post]
  obtain r q sr sq sn where s:
    "rg = Some r" "ol = Some q" "r \<noteq> q" "r < brk w" "q < brk w" "n < brk w1"
    "heap w1 r = Some sr" "level sr = lev" "length (d sr) = 2 ^ nat lev + 1"
    "heap w1 q = Some sq" "level sq = lev" "length (d sq) = 2 ^ nat lev + 1"
    "heap w1 n = Some sn" "level sn = lev - 1" "length (d sn) = 2 ^ nat (lev - 1) + 1"
    by blast
  from post have p4: "brk w \<le> brk w1"
    unfolding call_post_def by simp
  have b: "r \<noteq> brk w1" "q \<noteq> brk w1" "n \<noteq> brk w1" using s(4,5,6) p4 by auto
  have l1: "1 \<le> lev" using g(3) by simp
  from start_kernels [OF l1 s(7,8,9) s(10,11,12) s(13,14,15) s(3) b, of G sc msc]
  obtain w2 w3 w4 w5 where k:
     "get_level (Some r) w1 = Inr lev" "side_update G (Some r) sc w1 = Inr w2"
     "make_strip lev w2 = Inr (Some (brk w1), w3)"
     "get_level (Some n) w3 = Inr (lev - 1)" "get_level (Some (brk w1)) w3 = Inr lev"
     "get_level (Some r) w3 = Inr lev"
     "mid_update G (Some n) (Some (brk w1)) (Some r) sc msc w3 = Inr w4"
     "get_level (Some (brk w1)) w4 = Inr lev" "get_level (Some r) w4 = Inr lev"
     "get_level (Some q) w4 = Inr lev"
     "recalc G (Some (brk w1)) (Some r) (Some q) sc w4 = Inr w5"
    by blast
  show ?thesis
    unfolding f Fold.sel g(1) s(1,2)
    using gi sub l1 k by blast
qed

section \<open>The claims\<close>




text \<open>
  Claim C2. For the fold of level \<open>levels > 0\<close> that \<open>make_fold\<close> builds, after any
  number \<open>n\<close> of calls of \<open>next_strip\<close> on it, its \<open>next\<close> fold is the fold of level
  \<open>levels - 1\<close>, and during any \<open>2 * k\<close> further calls \<open>next_strip\<close> is invoked on a fold
  of level \<open>levels - 1\<close> exactly \<open>k\<close> times. The levels of a chain go down by one at each
  link, so these invocations are the ones on \<open>fold.next\<close>.
\<close>

theorem amortization_ratio:
  assumes "0 < levels"
  shows "\<exists>f0 w1. make_fold levels sm len start mn fdim w0 = Inr (f0, w1) \<and>
     (\<forall>n. \<exists>f w g. drive G n f0 w1 = Inr (f, w) \<and> flevel f = levels \<and>
        next_fold f = Some g \<and> flevel g = levels - 1 \<and>
        (\<forall>k. \<exists>f' w'. drive G (2 * k) f w = Inr (f', w') \<and>
           count_list (calls w') (levels - 1) = count_list (calls w) (levels - 1) + k))"
proof -
  from assms have le: "0 \<le> levels" by simp
  from make_fold_inv [OF le, of sm len start mn fdim w0]
  obtain f0 w1 where m: "make_fold levels sm len start mn fdim w0 = Inr (f0, w1)"
    "fold_inv w1 f0" "flevel f0 = levels"
    by blast
  have "\<exists>f w g. drive G n f0 w1 = Inr (f, w) \<and> flevel f = levels \<and>
        next_fold f = Some g \<and> flevel g = levels - 1 \<and>
        (\<forall>k. \<exists>f' w'. drive G (2 * k) f w = Inr (f', w') \<and>
           count_list (calls w') (levels - 1) = count_list (calls w) (levels - 1) + k)" for n
  proof -
    from drive_inv [OF m(2), of G n]
    obtain f w where d: "drive G n f0 w1 = Inr (f, w)" "fold_inv w f" "flevel f = levels"
      using m(3) by auto
    have L: "flevel f \<noteq> 0" using d(3) assms by simp
    from fold_inv_next [OF d(2) L] obtain g where g: "next_fold f = Some g" "flevel g = levels - 1"
      using d(3) by auto
    have "\<exists>f' w'. drive G (2 * k) f w = Inr (f', w') \<and>
           count_list (calls w') (levels - 1) = count_list (calls w) (levels - 1) + k" for k
      using even_calls [OF d(2) L, of G k] d(3) by auto
    then show ?thesis
      using d(1,3) g by blast
  qed
  then show ?thesis
    using m(1) by blast
qed

theorem amortization_ratio_witness:
  "(0::int) < 1 \<and>
   (\<exists>f0 w1 f w f' w'. make_fold 1 0 1 0 0 (1 / 2) w_ex = Inr (f0, w1) \<and>
      drive zero_noise 1 f0 w1 = Inr (f, w) \<and> calls w = [0, 1] \<and>
      drive zero_noise 2 f w = Inr (f', w') \<and> calls w' = [0, 1, 1, 0, 1] \<and>
      count_list (calls w') 0 = count_list (calls w) 0 + 1)"
proof -
  from amortization_ratio [of 1 0 1 0 0 "1 / 2" w_ex zero_noise]
  obtain f0 w1 where a: "make_fold 1 0 1 0 0 (1 / 2) w_ex = Inr (f0, w1)"
    and b: "\<And>n. \<exists>f w. drive zero_noise n f0 w1 = Inr (f, w) \<and>
        (\<forall>k. \<exists>f' w'. drive zero_noise (2 * k) f w = Inr (f', w') \<and>
           count_list (calls w') (1 - 1) = count_list (calls w) (1 - 1) + k)"
    by (metis zero_less_one)
  from b [of 1] obtain f w where c: "drive zero_noise 1 f0 w1 = Inr (f, w)"
    and e: "\<And>k. \<exists>f' w'. drive zero_noise (2 * k) f w = Inr (f', w') \<and>
           count_list (calls w') (1 - 1) = count_list (calls w) (1 - 1) + k"
    by blast
  from e [of 1] obtain f' w' where g: "drive zero_noise 2 f w = Inr (f', w')"
    "count_list (calls w') 0 = count_list (calls w) 0 + 1"
    by auto
  have ev: "(case make_fold 1 0 1 0 0 (1 / 2) w_ex of
        Inl e \<Rightarrow> False
      | Inr (f0, w1) \<Rightarrow>
          (case drive zero_noise 1 f0 w1 of
             Inl e \<Rightarrow> False
           | Inr (f, w) \<Rightarrow>
               calls w = [0, 1] \<and>
               (case drive zero_noise 2 f w of
                  Inl e \<Rightarrow> False
                | Inr (f', w') \<Rightarrow> calls w' = [0, 1, 1, 0, 1])))"
    by (simp add: make_fold.simps [of 1] make_fold.simps [of 0]
      set_strip_eq next_strip.simps [of _ 1] next_strip.simps [of _ 0] Let_def START_def STORE_def
      w_ex_def pow_def make_strip_eq gaussian_def wr_def zero_noise_def
      side_update_eq mid_update_eq double_strip_eq free_strip_def numeral_eq_Suc)
  show ?thesis
    using a c g ev by auto
qed

text \<open>
  Claim C3. For \<open>make_fold(1, 0, 1.0, 0, 0, 0.5)\<close> with the Gaussian source fixed at 0,
  in any store: the first call of \<open>next_strip\<close>, the second, and every call after any
  number \<open>n\<close> of earlier calls return a strip of the three entries \<open>[0, 0, 0]\<close>.
\<close>

theorem level1_scenario:
  "generated zero_noise n 1 0 1 0 0 (1 / 2) w = Inr (Some [0, 0, 0])"
  using generated_flat [of 1 n 1 0 "1 / 2" w] by (simp add: numeral_eq_Suc)





text \<open>
  Claim C6. For \<open>mid_update(left, new, right, scale, midscale)\<close> on live strips with
  \<open>left\<close> of level \<open>L - 1\<close> and \<open>new\<close>, \<open>right\<close> two different strips of level \<open>L\<close>,
  each of the size of its level: for \<open>0 \<le> i < 2 ^ (L - 1)\<close> the call sets
  \<open>new[2 * i]\<close> to \<open>scale * gaussian() + (left[i] + right[2 * i]) / 2\<close> and
  \<open>new[2 * i + 1]\<close> to
  \<open>midscale * gaussian() + (left[i] + left[i + 1] + right[2 * i] + right[2 * i + 2]) / 4\<close>,
  and it sets the last entry \<open>new[2 ^ L]\<close> to
  \<open>scale * gaussian() + (left[2 ^ (L - 1)] + right[2 ^ L]) / 2\<close>, the formula of the even
  entries. The sample for entry \<open>j\<close> is the \<open>j\<close>-th one drawn by the call. No other
  strip changes.
\<close>

theorem mid_update_formulas:
  assumes l: "heap w l = Some sl" and n: "heap w n = Some sn" and r: "heap w r = Some sr"
    and nr: "n \<noteq> r" and L: "1 \<le> L"
    and ll: "level sl = L - 1" and ln: "level sn = L" and lr: "level sr = L"
    and lenl: "length (d sl) = 2 ^ nat (L - 1) + 1"
    and lenn: "length (d sn) = 2 ^ nat L + 1"
    and lenr: "length (d sr) = 2 ^ nat L + 1"
  shows "\<exists>w' s'. mid_update G (Some l) (Some n) (Some r) sc msc w = Inr w' \<and>
     heap w' n = Some s' \<and> level s' = L \<and> length (d s') = 2 ^ nat L + 1 \<and>
     (\<forall>i < 2 ^ nat (L - 1).
        d s' ! (2 * i) = sc * G (drawn w + 2 * i) + (d sl ! i + d sr ! (2 * i)) / 2 \<and>
        d s' ! (2 * i + 1) =
          msc * G (drawn w + 2 * i + 1) +
          (d sl ! i + d sl ! (i + 1) + d sr ! (2 * i) + d sr ! (2 * i + 2)) / 4) \<and>
     d s' ! (2 ^ nat L) =
       sc * G (drawn w + 2 ^ nat L) + (d sl ! (2 ^ nat (L - 1)) + d sr ! (2 ^ nat L)) / 2 \<and>
     (\<forall>a. a \<noteq> n \<longrightarrow> heap w' a = heap w a) \<and> drawn w' = drawn w + 2 ^ nat L + 1"
proof -
  define c :: nat where "c = 2 ^ nat (L - 1)"
  have pw: "(2::nat) ^ nat L = 2 * c"
    using pow2_pred [OF L] by (simp add: c_def)
  have nl: "n \<noteq> l" using l n ll ln by auto
  have lR: "length (d sr) = 2 * c + 1" using lenr pw by simp
  define D where "D = mid_data G sc msc (drawn w) (d sl) (d sr)"
  have res: "mid_update G (Some l) (Some n) (Some r) sc msc w =
      Inr (w\<lparr>heap := (heap w)(n \<mapsto> sn\<lparr>d := D\<rparr>), drawn := drawn w + 2 * c + 1\<rparr>)"
    using mid_update_eq [OF l n r nl nr, of G sc msc] L ll ln lr lenl lenn lenr pw
    by (simp add: D_def)
  have lD: "length D = 2 * c + 1" by (simp add: D_def lR)
  have ev: "D ! (2 * i) = sc * G (drawn w + 2 * i) + (d sl ! i + d sr ! (2 * i)) / 2"
    if "i \<le> c" for i
    using that by (simp add: D_def mid_data_nth lR)
  have od: "D ! (2 * i + 1) = msc * G (drawn w + 2 * i + 1) +
      (d sl ! i + d sl ! (i + 1) + d sr ! (2 * i) + d sr ! (2 * i + 2)) / 4"
    if "i < c" for i
    using that by (simp add: D_def mid_data_nth lR)
  show ?thesis
    unfolding res c_def [symmetric] pw
    using lD ev od ln by simp
qed

theorem mid_update_formulas_witness:
  "heap w_ex 0 = Some \<lparr>level = 0, d = [1, 2]\<rparr> \<and> heap w_ex 3 = Some \<lparr>level = 1, d = [8, 9, 10]\<rparr> \<and>
   heap w_ex 2 = Some \<lparr>level = 1, d = [5, 6, 7]\<rparr> \<and> (3::nat) \<noteq> 2 \<and>
   (\<exists>w' s'. mid_update ramp (Some 0) (Some 3) (Some 2) 1 1 w_ex = Inr w' \<and> heap w' 3 = Some s' \<and>
      d s' ! 0 = 4 \<and> d s' ! 1 = 23 / 4 \<and> d s' ! 2 = 15 / 2)"
proof -
  have a: "heap w_ex 0 = Some \<lparr>level = 0, d = [1, 2]\<rparr>"
    "heap w_ex 3 = Some \<lparr>level = 1, d = [8, 9, 10]\<rparr>"
    "heap w_ex 2 = Some \<lparr>level = 1, d = [5, 6, 7]\<rparr>" "(3::nat) \<noteq> 2" "(1::int) \<le> 1"
    by (simp_all add: w_ex_def)
  from mid_update_formulas [OF a, of ramp 1 1] obtain w' s' where
    r: "mid_update ramp (Some 0) (Some 3) (Some 2) 1 1 w_ex = Inr w'" "heap w' 3 = Some s'"
    "\<forall>i < 1. d s' ! (2 * i) = ramp (drawn w_ex + 2 * i) + ([1, 2] ! i + [5, 6, 7] ! (2 * i)) / 2 \<and>
        d s' ! (2 * i + 1) =
          ramp (drawn w_ex + 2 * i + 1) +
          ([1, 2] ! i + [1, 2] ! (i + 1) + [5, 6, 7] ! (2 * i) + [5, 6, 7] ! (2 * i + 2)) / 4"
    "d s' ! 2 = ramp (drawn w_ex + 2) + ([1, 2] ! 1 + [5, 6, 7] ! 2) / 2"
    by auto
  have "d s' ! 0 = 4" "d s' ! 1 = 23 / 4"
    using r(3) [rule_format, of 0] by (simp_all add: ramp_def w_ex_def)
  moreover have "d s' ! 2 = 15 / 2"
    using r(4) by (simp add: ramp_def w_ex_def)
  ultimately show ?thesis
    using a r(1,2) by blast
qed

text \<open>
  Claim C7. \<open>next_strip\<close> on a fold of level 0 does not recurse and reads nothing of the
  fold but \<open>mean\<close> and \<open>scale\<close>: whatever the state and the slots of the fold hold, the
  call returns a strip that was not live before, of two entries
  \<open>mean + scale * gaussian()\<close> from two successive samples, leaves the fold and every
  other strip as they were, and records one invocation only. Nothing is cached: the next
  call returns another new strip, made from the next two samples.
\<close>

theorem level0_next_strip:
  assumes "flevel f = 0" and "wf_world w"
  shows "\<exists>w' w''.
     next_strip G f w = Inr (Some (brk w), f, w') \<and>
     heap w (brk w) = None \<and>
     heap w' (brk w) = Some \<lparr>level = 0, d = [mean f + scale f * G (drawn w),
                                             mean f + scale f * G (drawn w + 1)]\<rparr> \<and>
     (\<forall>a. a \<noteq> brk w \<longrightarrow> heap w' a = heap w a) \<and>
     drawn w' = drawn w + 2 \<and> calls w' = 0 # calls w \<and>
     next_strip G f w' = Inr (Some (brk w + 1), f, w'') \<and>
     heap w'' (brk w + 1) = Some \<lparr>level = 0, d = [mean f + scale f * G (drawn w + 2),
                                                 mean f + scale f * G (drawn w + 3)]\<rparr> \<and>
     heap w'' (brk w) = heap w' (brk w)"
proof -
  obtain st sm mn sc msc nw wk rg ol nx where f: "f = Fold 0 st sm mn sc msc nw wk rg ol nx"
    using assms(1) by (cases f) auto
  have "heap w (brk w) = None"
    using assms(2) by (simp add: wf_world_def)
  then show ?thesis
    unfolding f base_body by (simp add: numeral_3_eq_3)
qed

theorem level0_next_strip_witness:
  "flevel (Fold 0 1 0 10 2 3 None None None None None) = 0 \<and> wf_world w_ex \<and>
   (\<exists>w'. next_strip ramp (Fold 0 1 0 10 2 3 None None None None None) w_ex =
            Inr (Some 4, Fold 0 1 0 10 2 3 None None None None None, w') \<and>
          heap w' 4 = Some \<lparr>level = 0, d = [12, 14]\<rparr> \<and> calls w' = [0])"
  using level0_next_strip [of "Fold 0 1 0 10 2 3 None None None None None" w_ex ramp]
  by (auto simp: w_ex_def wf_world_def ramp_def)



text \<open>
  Claim C9. In the model a kernel whose precondition fails does not return: \<open>side_update\<close>
  on a strip of level below 1 stops on the shift by a negative count, \<open>mid_update\<close> and
  \<open>recalc\<close> on strips of the wrong levels stop with the error for inconsistent sizes.
  For every chain that \<open>make_fold\<close> builds and every number of calls of \<open>next_strip\<close>
  on its finest fold, the invariant of chains holds and the next call returns. And in every
  chain with the invariant, a call in state \<open>START\<close> on a fold of level \<open>L > 0\<close> recurses
  into a fold with the invariant, then gives \<open>side_update\<close> a strip of level \<open>L \<ge> 1\<close>,
  \<open>mid_update\<close> strips of the levels \<open>L - 1\<close>, \<open>L\<close>, \<open>L\<close> and \<open>recalc\<close> three strips
  of level \<open>L\<close>, and each kernel returns.
\<close>

theorem kernel_preconditions_hold:
  "(0 \<le> levels \<longrightarrow>
     (\<exists>f0 w0. make_fold levels sm len start mn fdim w = Inr (f0, w0) \<and> fold_inv w0 f0 \<and>
        (\<forall>n. \<exists>f w1 p f' w'. drive G n f0 w0 = Inr (f, w1) \<and> fold_inv w1 f \<and>
           next_strip G f w1 = Inr (p, f', w') \<and> fold_inv w' f'))) \<and>
   (\<forall>w f. fold_inv w f \<and> flevel f \<noteq> 0 \<and> state f = START \<longrightarrow>
      (\<exists>g n g' w1 w2 k w3 w4 w5.
         next_fold f = Some g \<and> fold_inv (w\<lparr>calls := flevel f # calls w\<rparr>) g \<and>
         next_strip G g (w\<lparr>calls := flevel f # calls w\<rparr>) = Inr (n, g', w1) \<and>
         1 \<le> flevel f \<and> get_level (regen f) w1 = Inr (flevel f) \<and>
         side_update G (regen f) (scale f) w1 = Inr w2 \<and>
         make_strip (flevel f) w2 = Inr (k, w3) \<and>
         get_level n w3 = Inr (flevel f - 1) \<and> get_level k w3 = Inr (flevel f) \<and>
         get_level (regen f) w3 = Inr (flevel f) \<and>
         mid_update G n k (regen f) (scale f) (midscale f) w3 = Inr w4 \<and>
         get_level k w4 = Inr (flevel f) \<and> get_level (regen f) w4 = Inr (flevel f) \<and>
         get_level (old f) w4 = Inr (flevel f) \<and>
         recalc G k (regen f) (old f) (scale f) w4 = Inr w5))"
proof (intro conjI allI impI)
  assume le: "0 \<le> levels"
  from make_fold_inv [OF le, of sm len start mn fdim w]
  obtain f0 w0 where m: "make_fold levels sm len start mn fdim w = Inr (f0, w0)" "fold_inv w0 f0"
    by blast
  have "\<exists>f w1 p f' w'. drive G n f0 w0 = Inr (f, w1) \<and> fold_inv w1 f \<and>
           next_strip G f w1 = Inr (p, f', w') \<and> fold_inv w' f'" for n
  proof -
    from drive_inv [OF m(2), of G n]
    obtain f w1 where d: "drive G n f0 w0 = Inr (f, w1)" "fold_inv w1 f"
      by blast
    from next_strip_inv [OF d(2), of G]
    obtain p f' w' where s: "next_strip G f w1 = Inr (Some p, f', w')" "call_post f w1 p f' w'"
      by blast
    have "fold_inv w' f'" using s(2) by (simp add: call_post_def)
    then show ?thesis using d s(1) by blast
  qed
  then show "\<exists>f0 w0. make_fold levels sm len start mn fdim w = Inr (f0, w0) \<and> fold_inv w0 f0 \<and>
        (\<forall>n. \<exists>f w1 p f' w'. drive G n f0 w0 = Inr (f, w1) \<and> fold_inv w1 f \<and>
           next_strip G f w1 = Inr (p, f', w') \<and> fold_inv w' f')"
    using m by blast
next
  fix w f assume "fold_inv w f \<and> flevel f \<noteq> 0 \<and> state f = START"
  then show "\<exists>g n g' w1 w2 k w3 w4 w5.
         next_fold f = Some g \<and> fold_inv (w\<lparr>calls := flevel f # calls w\<rparr>) g \<and>
         next_strip G g (w\<lparr>calls := flevel f # calls w\<rparr>) = Inr (n, g', w1) \<and>
         1 \<le> flevel f \<and> get_level (regen f) w1 = Inr (flevel f) \<and>
         side_update G (regen f) (scale f) w1 = Inr w2 \<and>
         make_strip (flevel f) w2 = Inr (k, w3) \<and>
         get_level n w3 = Inr (flevel f - 1) \<and> get_level k w3 = Inr (flevel f) \<and>
         get_level (regen f) w3 = Inr (flevel f) \<and>
         mid_update G n k (regen f) (scale f) (midscale f) w3 = Inr w4 \<and>
         get_level k w4 = Inr (flevel f) \<and> get_level (regen f) w4 = Inr (flevel f) \<and>
         get_level (old f) w4 = Inr (flevel f) \<and>
         recalc G k (regen f) (old f) (scale f) w4 = Inr w5"
    using start_phase_kernels [of w f G] by blast
qed

theorem kernel_preconditions_hold_witness:
  "(0::int) \<le> 1 \<and>
   (\<exists>f0 w0. make_fold 1 1 1 0 0 (1 / 2) w_ex = Inr (f0, w0) \<and> fold_inv w0 f0 \<and>
      flevel f0 = 1 \<and> state f0 = START \<and>
      (\<exists>f w1 p f' w'. drive ramp 2 f0 w0 = Inr (f, w1) \<and> next_strip ramp f w1 = Inr (p, f', w')) \<and>
      (\<exists>g n g' w1 w2 k w3 w4 w5.
         next_fold f0 = Some g \<and> next_strip ramp g (w0\<lparr>calls := 1 # calls w0\<rparr>) = Inr (n, g', w1) \<and>
         get_level (regen f0) w1 = Inr 1 \<and> side_update ramp (regen f0) (scale f0) w1 = Inr w2 \<and>
         make_strip 1 w2 = Inr (k, w3) \<and>
         get_level n w3 = Inr 0 \<and> get_level k w3 = Inr 1 \<and> get_level (regen f0) w3 = Inr 1 \<and>
         mid_update ramp n k (regen f0) (scale f0) (midscale f0) w3 = Inr w4 \<and>
         get_level k w4 = Inr 1 \<and> get_level (regen f0) w4 = Inr 1 \<and> get_level (old f0) w4 = Inr 1 \<and>
         recalc ramp k (regen f0) (old f0) (scale f0) w4 = Inr w5))"
proof -
  note t = kernel_preconditions_hold [of 1 1 1 0 0 "1 / 2" w_ex ramp]
  from t obtain f0 w0 where m: "make_fold 1 1 1 0 0 (1 / 2) w_ex = Inr (f0, w0)" "fold_inv w0 f0"
    and d: "\<And>n. \<exists>f w1 p f' w'. drive ramp n f0 w0 = Inr (f, w1) \<and> fold_inv w1 f \<and>
           next_strip ramp f w1 = Inr (p, f', w') \<and> fold_inv w' f'"
    by auto
  have ev: "(case make_fold 1 1 1 0 0 (1 / 2) w_ex of
        Inl e \<Rightarrow> False
      | Inr (f0, w0) \<Rightarrow> flevel f0 = 1 \<and> state f0 = START)"
    by (simp add: make_fold.simps [of 1] make_fold.simps [of 0] set_strip_eq Let_def START_def)
  then have s: "flevel f0 = 1" "state f0 = START"
    using m(1) by simp_all
  have c: "fold_inv w0 f0 \<and> flevel f0 \<noteq> 0 \<and> state f0 = START"
    using m(2) s by simp
  from t have "\<forall>w f. fold_inv w f \<and> flevel f \<noteq> 0 \<and> state f = START \<longrightarrow>
      (\<exists>g n g' w1 w2 k w3 w4 w5.
         next_fold f = Some g \<and> fold_inv (w\<lparr>calls := flevel f # calls w\<rparr>) g \<and>
         next_strip ramp g (w\<lparr>calls := flevel f # calls w\<rparr>) = Inr (n, g', w1) \<and>
         1 \<le> flevel f \<and> get_level (regen f) w1 = Inr (flevel f) \<and>
         side_update ramp (regen f) (scale f) w1 = Inr w2 \<and>
         make_strip (flevel f) w2 = Inr (k, w3) \<and>
         get_level n w3 = Inr (flevel f - 1) \<and> get_level k w3 = Inr (flevel f) \<and>
         get_level (regen f) w3 = Inr (flevel f) \<and>
         mid_update ramp n k (regen f) (scale f) (midscale f) w3 = Inr w4 \<and>
         get_level k w4 = Inr (flevel f) \<and> get_level (regen f) w4 = Inr (flevel f) \<and>
         get_level (old f) w4 = Inr (flevel f) \<and>
         recalc ramp k (regen f) (old f) (scale f) w4 = Inr w5)"
    by (rule conjunct2)
  from this [rule_format, OF c] have k: "\<exists>g n g' w1 w2 k w3 w4 w5.
         next_fold f0 = Some g \<and> next_strip ramp g (w0\<lparr>calls := 1 # calls w0\<rparr>) = Inr (n, g', w1) \<and>
         get_level (regen f0) w1 = Inr 1 \<and> side_update ramp (regen f0) (scale f0) w1 = Inr w2 \<and>
         make_strip 1 w2 = Inr (k, w3) \<and>
         get_level n w3 = Inr 0 \<and> get_level k w3 = Inr 1 \<and> get_level (regen f0) w3 = Inr 1 \<and>
         mid_update ramp n k (regen f0) (scale f0) (midscale f0) w3 = Inr w4 \<and>
         get_level k w4 = Inr 1 \<and> get_level (regen f0) w4 = Inr 1 \<and> get_level (old f0) w4 = Inr 1 \<and>
         recalc ramp k (regen f0) (old f0) (scale f0) w4 = Inr w5"
    unfolding s by (elim exE conjE) (intro exI conjI, simp_all)
  from d [of 2] have e: "\<exists>f w1 p f' w'. drive ramp 2 f0 w0 = Inr (f, w1) \<and>
      next_strip ramp f w1 = Inr (p, f', w')"
    by blast
  have z: "(0::int) \<le> 1" by simp
  show ?thesis
    using z m s k e by blast
qed

text \<open>
  Claim C10. On the fold of level \<open>levels > 0\<close> that \<open>make_fold\<close> builds, after any
  number of calls: a call in state \<open>START\<close> returns the pointer that the slot \<open>old\<close>
  held before the call and still holds after it, to a live strip, so the fold and the
  caller refer to one strip; the call leaves \<open>level\<close>, \<open>smooth\<close>, \<open>mean\<close>, \<open>scale\<close>
  and \<open>midscale\<close> as they were, and \<open>next\<close> still leads to the same fold, in the state
  in which the recursive call left it. The call in state \<open>STORE\<close> that follows assigns
  \<open>working\<close> to \<open>old\<close>, which is another strip, does not touch the strip returned
  before, and leaves the same fields and \<open>next\<close> unchanged.
\<close>

theorem old_slot_is_shared:
  assumes "0 < levels"
  shows "\<exists>f0 w0. make_fold levels sm len start mn fdim w = Inr (f0, w0) \<and>
    (\<forall>n. \<exists>f w1. drive G n f0 w0 = Inr (f, w1) \<and> flevel f = levels \<and>
       (state f = START \<longrightarrow>
         (\<exists>p f' w' g n' g' wg p2 f2 w2.
            next_strip G f w1 = Inr (Some p, f', w') \<and>
            old f = Some p \<and> old f' = Some p \<and> heap w' p \<noteq> None \<and>
            state f' = STORE \<and> flevel f' = flevel f \<and> smooth f' = smooth f \<and> mean f' = mean f \<and>
            scale f' = scale f \<and> midscale f' = midscale f \<and>
            next_fold f = Some g \<and>
            next_strip G g (w1\<lparr>calls := flevel f # calls w1\<rparr>) = Inr (n', g', wg) \<and>
            next_fold f' = Some g' \<and>
            next_strip G f' w' = Inr (Some p2, f2, w2) \<and>
            old f2 = working f' \<and> old f2 \<noteq> Some p \<and> heap w2 p = heap w' p \<and>
            state f2 = START \<and> flevel f2 = flevel f \<and> smooth f2 = smooth f \<and> mean f2 = mean f \<and>
            scale f2 = scale f \<and> midscale f2 = midscale f \<and> next_fold f2 = next_fold f')))"
proof -
  from assms have le: "0 \<le> levels" by simp
  from make_fold_inv [OF le, of sm len start mn fdim w]
  obtain f0 w0 where m: "make_fold levels sm len start mn fdim w = Inr (f0, w0)" "fold_inv w0 f0"
    "flevel f0 = levels"
    by blast
  have "\<exists>f w1. drive G n f0 w0 = Inr (f, w1) \<and> flevel f = levels \<and>
       (state f = START \<longrightarrow>
         (\<exists>p f' w' g n' g' wg p2 f2 w2.
            next_strip G f w1 = Inr (Some p, f', w') \<and>
            old f = Some p \<and> old f' = Some p \<and> heap w' p \<noteq> None \<and>
            state f' = STORE \<and> flevel f' = flevel f \<and> smooth f' = smooth f \<and> mean f' = mean f \<and>
            scale f' = scale f \<and> midscale f' = midscale f \<and>
            next_fold f = Some g \<and>
            next_strip G g (w1\<lparr>calls := flevel f # calls w1\<rparr>) = Inr (n', g', wg) \<and>
            next_fold f' = Some g' \<and>
            next_strip G f' w' = Inr (Some p2, f2, w2) \<and>
            old f2 = working f' \<and> old f2 \<noteq> Some p \<and> heap w2 p = heap w' p \<and>
            state f2 = START \<and> flevel f2 = flevel f \<and> smooth f2 = smooth f \<and> mean f2 = mean f \<and>
            scale f2 = scale f \<and> midscale f2 = midscale f \<and> next_fold f2 = next_fold f'))" for n
  proof -
    from drive_inv [OF m(2), of G n]
    obtain f w1 where d: "drive G n f0 w0 = Inr (f, w1)" "fold_inv w1 f" "flevel f = levels"
      using m(3) by auto
    have "\<exists>p f' w' g n' g' wg p2 f2 w2.
            next_strip G f w1 = Inr (Some p, f', w') \<and>
            old f = Some p \<and> old f' = Some p \<and> heap w' p \<noteq> None \<and>
            state f' = STORE \<and> flevel f' = flevel f \<and> smooth f' = smooth f \<and> mean f' = mean f \<and>
            scale f' = scale f \<and> midscale f' = midscale f \<and>
            next_fold f = Some g \<and>
            next_strip G g (w1\<lparr>calls := flevel f # calls w1\<rparr>) = Inr (n', g', wg) \<and>
            next_fold f' = Some g' \<and>
            next_strip G f' w' = Inr (Some p2, f2, w2) \<and>
            old f2 = working f' \<and> old f2 \<noteq> Some p \<and> heap w2 p = heap w' p \<and>
            state f2 = START \<and> flevel f2 = flevel f \<and> smooth f2 = smooth f \<and> mean f2 = mean f \<and>
            scale f2 = scale f \<and> midscale f2 = midscale f \<and> next_fold f2 = next_fold f'"
      if st: "state f = START"
    proof -
      obtain lev sm mn sc msc nw wk rg ol nx where f: "f = Fold lev START sm mn sc msc nw wk rg ol nx"
        using st by (cases f) auto
      have l0: "lev \<noteq> 0" using d(3) assms f by simp
      let ?wl = "w1\<lparr>calls := lev # calls w1\<rparr>"
      from d(2) obtain g where g: "nx = Some g" "fold_inv w1 g" "0 < lev"
        unfolding f fold_inv_START [OF l0] by blast
      have gi: "fold_inv ?wl g" using g(2) by (rule fold_inv_calls)
      from next_strip_inv [OF gi, of G]
      obtain n' g' wg where sub: "next_strip G g ?wl = Inr (Some n', g', wg)"
        and post: "call_post g ?wl n' g' wg"
        by blast
      have inv': "fold_inv w1 (Fold lev START sm mn sc msc nw wk rg ol (Some g))"
        using d(2) unfolding f g(1) .
      let ?F' = "\<lambda>r q. Fold lev STORE sm mn sc msc (Some n') (Some (brk wg)) (Some r) (Some q) (Some g')"
      have "\<exists>r q w'. ol = Some q \<and>
          next_strip G (Fold lev START sm mn sc msc nw wk rg ol (Some g)) w1 = Inr (Some q, ?F' r q, w')"
        using start_step [OF l0 inv' sub post]
        by (elim exE conjE) (intro exI conjI, assumption, assumption)
      then obtain r q w' where res: "ol = Some q"
        "next_strip G (Fold lev START sm mn sc msc nw wk rg ol (Some g)) w1 = Inr (Some q, ?F' r q, w')"
        by blast
      from next_strip_inv [OF inv', of G] res(2)
      have cp: "call_post (Fold lev START sm mn sc msc nw wk rg ol (Some g)) w1 q (?F' r q) w'"
        by auto
      then have i: "fold_inv w' (?F' r q)" "strip_at w' (Some q) lev" "q \<notin> owned (?F' r q)"
        by (simp_all add: call_post_def)
      from i(2) obtain sq where q: "heap w' q = Some sq" "q < brk w'"
        by (rule strip_atE) auto
      from i(1) have sn: "strip_at w' (Some n') (lev - 1)"
        unfolding fold_inv_STORE [OF l0] by blast
      then obtain sn where n: "heap w' n' = Some sn" "n' < brk w'" "level sn = lev - 1"
        "length (d sn) = 2 ^ nat (lev - 1) + 1"
        by (rule strip_atE) auto
      have nb: "n' \<noteq> brk w'" using n(2) by simp
      have ln0: "0 \<le> level sn" using n(3) g(3) by simp
      have len: "length (d sn) = 2 ^ nat (level sn) + 1" using n(3,4) by simp
      define f2 where "f2 = Fold lev START sm mn sc msc None None (Some (brk w')) (Some (brk wg)) (Some g')"
      define w2 where "w2 = w'\<lparr>heap := (heap w')(brk w' \<mapsto> \<lparr>level = level sn + 1, d = doubled (d sn)\<rparr>,
          n' := None), brk := Suc (brk w'), calls := lev # calls w'\<rparr>"
      have sb: "next_strip G (?F' r q) w' = Inr (Some r, f2, w2)"
        unfolding f2_def w2_def by (rule store_body [OF l0 n(1) nb ln0 len])
      have own: "owned (?F' r q) = {r, brk wg, n'} \<union> owned g'"
        unfolding owned_STORE [OF l0] by auto
      have qn: "q \<noteq> n'" "q \<noteq> brk wg" using i(3) own by auto
      have qb: "q \<noteq> brk w'" using q(2) by simp
      have h2: "heap w2 q = heap w' q" using qn qb by (simp add: w2_def)
      show ?thesis
        unfolding f g(1) Fold.sel
        apply (rule exI [of _ q], rule exI [of _ "?F' r q"], rule exI [of _ w'], rule exI [of _ g],
            rule exI [of _ "Some n'"], rule exI [of _ g'], rule exI [of _ wg], rule exI [of _ r],
            rule exI [of _ f2], rule exI [of _ w2])
        using res q(1) sub sb h2 qn by (simp add: f2_def)
    qed
    then show ?thesis
      using d(1,3) by blast
  qed
  then show ?thesis
    using m(1) by blast
qed

theorem old_slot_is_shared_witness:
  "(0::int) < 1 \<and>
   (\<exists>f0 w0 f' w' p2 f2 w2. make_fold 1 0 1 0 0 (1 / 2) w_ex = Inr (f0, w0) \<and> state f0 = START \<and>
      next_strip ramp f0 w0 = Inr (Some 5, f', w') \<and> old f0 = Some 5 \<and> old f' = Some 5 \<and>
      heap w' 5 \<noteq> None \<and> state f' = STORE \<and>
      next_strip ramp f' w' = Inr (Some p2, f2, w2) \<and> old f2 = working f' \<and> old f2 \<noteq> Some 5 \<and>
      heap w2 5 = heap w' 5 \<and> state f2 = START)"
proof -
  have z: "(0::int) < 1" by simp
  from old_slot_is_shared [OF z, of 0 1 0 0 "1 / 2" w_ex ramp]
  obtain f0 w0 where m: "make_fold 1 0 1 0 0 (1 / 2) w_ex = Inr (f0, w0)"
    and d: "\<And>n. \<exists>f w1. drive ramp n f0 w0 = Inr (f, w1) \<and> flevel f = 1 \<and>
       (state f = START \<longrightarrow>
         (\<exists>p f' w' g n' g' wg p2 f2 w2.
            next_strip ramp f w1 = Inr (Some p, f', w') \<and>
            old f = Some p \<and> old f' = Some p \<and> heap w' p \<noteq> None \<and>
            state f' = STORE \<and> flevel f' = flevel f \<and> smooth f' = smooth f \<and> mean f' = mean f \<and>
            scale f' = scale f \<and> midscale f' = midscale f \<and>
            next_fold f = Some g \<and>
            next_strip ramp g (w1\<lparr>calls := flevel f # calls w1\<rparr>) = Inr (n', g', wg) \<and>
            next_fold f' = Some g' \<and>
            next_strip ramp f' w' = Inr (Some p2, f2, w2) \<and>
            old f2 = working f' \<and> old f2 \<noteq> Some p \<and> heap w2 p = heap w' p \<and>
            state f2 = START \<and> flevel f2 = flevel f \<and> smooth f2 = smooth f \<and> mean f2 = mean f \<and>
            scale f2 = scale f \<and> midscale f2 = midscale f \<and> next_fold f2 = next_fold f'))"
    by blast
  have ev: "(case make_fold 1 0 1 0 0 (1 / 2) w_ex of
        Inl e \<Rightarrow> False
      | Inr (f0, w0) \<Rightarrow> state f0 = START \<and> old f0 = Some 5)"
    by (simp add: make_fold.simps [of 1] make_fold.simps [of 0] set_strip_eq Let_def START_def
        w_ex_def)
  then have s: "state f0 = START" "old f0 = Some 5"
    using m by simp_all
  from d [of 0] s(1) obtain p f' w' p2 f2 w2 where
    r: "next_strip ramp f0 w0 = Inr (Some p, f', w')"
    "old f0 = Some p" "old f' = Some p" "heap w' p \<noteq> None" "state f' = STORE"
    "next_strip ramp f' w' = Inr (Some p2, f2, w2)"
    "old f2 = working f'" "old f2 \<noteq> Some p" "heap w2 p = heap w' p" "state f2 = START"
    by auto
  have p: "p = 5" using r(2) s(2) by simp
  show ?thesis
    using z m s r unfolding p by blast
qed

end
